theory Spec2Isabelle
  imports Main
begin

section \<open>Paths and strings\<close>

text \<open>
  The program (\<^verbatim>\<open>main.py\<close>) sorts the regular files of a source tree into
  sub-directories of an output directory, one per lower-cased file extension. It works on
  \<^verbatim>\<open>AsyncPath\<close> values, which are \<^verbatim>\<open>pathlib\<close> pure paths with asynchronous
  file-system methods.

  A path is modelled by the list of its components below one fixed origin (POSIX flavour;
  the origin stands for the root, and the empty list is the origin itself).

  The string functions are those of the Python standard library that \<^verbatim>\<open>copy_file\<close>
  calls: \<^verbatim>\<open>str.rfind\<close>, \<^verbatim>\<open>str.lower\<close>, \<^verbatim>\<open>str.lstrip\<close>,
  \<^verbatim>\<open>PurePath.name\<close>, \<^verbatim>\<open>PurePath.suffix\<close> and the \<^verbatim>\<open>/\<close> operator.
  \<^verbatim>\<open>PurePath.suffix\<close> is the one of Python 3.8 to 3.13
  (\<^verbatim>\<open>i = name.rfind('.'); name[i:] if 0 < i < len(name) - 1 else ''\<close>).
\<close>

type_synonym path = "string list"

definition name :: "path \<Rightarrow> string" where
  "name p = (if p = [] then [] else last p)"

definition parent :: "path \<Rightarrow> path" where
  "parent p = butlast p"

text \<open>\<^verbatim>\<open>s.rfind(c)\<close>: the highest index of \<open>c\<close> in \<open>s\<close>, or \<open>-1\<close>.\<close>

fun rfind :: "string \<Rightarrow> char \<Rightarrow> int" where
  "rfind [] c = - 1"
| "rfind (x # xs) c =
     (let r = rfind xs c in if 0 \<le> r then r + 1 else if x = c then 0 else - 1)"

definition suffix :: "path \<Rightarrow> string" where
  "suffix p =
     (let nm = name p; i = rfind nm (CHR ''.'')
      in if 0 < i \<and> i < int (length nm) - 1 then drop (nat i) nm else [])"

text \<open>
  \<^verbatim>\<open>s.lower()\<close>. A \<^verbatim>\<open>str\<close> is modelled by its UTF-8 encoding: a character below
  128 is one byte, and the bytes of every other character are 128 or more, so that the dot
  and the separator stand in the encoding exactly where they stand in the string. CPython
  lower-cases a string of ASCII characters with the table \<^verbatim>\<open>Py_TOLOWER\<close>
  (\<^verbatim>\<open>A\<close> to \<^verbatim>\<open>Z\<close> become \<^verbatim>\<open>a\<close> to \<^verbatim>\<open>z\<close>), and any other string with the
  Unicode character database:
  \<^verbatim>\<open>
    if (PyUnicode_IS_ASCII(self))
        return ascii_upper_or_lower(self, 1);
    return case_operation(self, do_lower);
  \<close>
  The database is not part of the program and is left open. It maps the dot and the
  separator to themselves, and every other character to one or more characters that are
  neither (the result for a capital sigma depends on its neighbours, so the mapping is not
  character by character). This is all the model keeps of it: \<open>unicode_lower\<close> is some
  function of the type \<open>casing\<close>, the functions that keep the \<open>skeleton\<close> of a string,
  which is its dots and separators in their order, with one mark for each non-empty run of
  other characters between them.
\<close>

fun skeleton :: "string \<Rightarrow> char option list" where
  "skeleton [] = []"
| "skeleton (c # cs) =
     (if c = CHR ''.'' \<or> c = CHR ''/'' then Some c # skeleton cs
      else if skeleton cs \<noteq> [] \<and> hd (skeleton cs) = None then skeleton cs
      else None # skeleton cs)"

typedef casing = "{f :: string \<Rightarrow> string. \<forall>s. skeleton (f s) = skeleton s}"
  morphisms cased Abs_casing
  by (rule exI [of _ "\<lambda>s. s"]) simp

definition unicode_lower :: "string \<Rightarrow> string" where
  "unicode_lower = cased undefined"

definition isascii :: "string \<Rightarrow> bool" where
  "isascii s = list_all (\<lambda>c. (of_char c :: nat) < 128) s"

definition Py_TOLOWER :: "char \<Rightarrow> char" where
  "Py_TOLOWER c =
     (let n = (of_char c :: nat) in if 65 \<le> n \<and> n \<le> 90 then char_of (n + 32) else c)"

definition lower :: "string \<Rightarrow> string" where
  "lower s = (if isascii s then map Py_TOLOWER s else unicode_lower s)"

text \<open>\<^verbatim>\<open>s.lstrip(chars)\<close> drops the leading characters that occur in \<open>chars\<close>.\<close>

definition lstrip :: "string \<Rightarrow> string \<Rightarrow> string" where
  "lstrip s chars = dropWhile (\<lambda>c. c \<in> set chars) s"

text \<open>\<^verbatim>\<open>s.split('/')\<close>, and the components a string contributes to a path: empty
  components and \<^verbatim>\<open>.\<close> are dropped.\<close>

fun split_sep :: "string \<Rightarrow> string list" where
  "split_sep [] = [[]]"
| "split_sep (c # cs) =
     (if c = CHR ''/'' then [] # split_sep cs
      else (case split_sep cs of [] \<Rightarrow> [[c]] | r # rs \<Rightarrow> (c # r) # rs))"

definition parts_of :: "string \<Rightarrow> path" where
  "parts_of s = filter (\<lambda>x. x \<noteq> [] \<and> x \<noteq> ''.'') (split_sep s)"

text \<open>\<^verbatim>\<open>p / s\<close>: a string that starts with the separator is anchored at the origin
  and replaces \<open>p\<close>.\<close>

definition joinpath :: "path \<Rightarrow> string \<Rightarrow> path" where
  "joinpath p s = (if s \<noteq> [] \<and> hd s = CHR ''/'' then parts_of s else p @ parts_of s)"

definition AsyncPath :: "string \<Rightarrow> path" where
  "AsyncPath s = joinpath [] s"

subsection \<open>The bucket of a file\<close>

text \<open>
  \<^verbatim>\<open>copy_file\<close> computes the destination directory of a file in its first two
  statements:
  \<^verbatim>\<open>
    extension = path.suffix.lower()
    target_folder = output_folder / (
        extension.lstrip(".") if extension else "no_extension")
  \<close>
  \<open>classify\<close> is the name joined to the output folder, \<open>target_folder\<close> the directory,
  and \<open>target_path\<close> the path \<^verbatim>\<open>target_folder / path.name\<close> handed to the copy.
\<close>

definition classify :: "path \<Rightarrow> string" where
  "classify path =
     (let extension = lower (suffix path)
      in if extension \<noteq> [] then lstrip extension ''.'' else ''no_extension'')"

definition target_folder :: "path \<Rightarrow> path \<Rightarrow> path" where
  "target_folder path output_folder = joinpath output_folder (classify path)"

definition target_path :: "path \<Rightarrow> path \<Rightarrow> path" where
  "target_path path output_folder = joinpath (target_folder path output_folder) (name path)"

section \<open>The file system\<close>

text \<open>
  The file system is a table from paths to nodes; a later entry for a path is shadowed by
  an earlier one, and the origin \<open>[]\<close> is always a directory. The operations are the
  calls the program makes through \<^verbatim>\<open>aiopath\<close> and \<^verbatim>\<open>aioshutil\<close>, with the
  results that \<^verbatim>\<open>os\<close>, \<^verbatim>\<open>pathlib\<close> and \<^verbatim>\<open>shutil\<close> give them on a POSIX
  system. A path is looked up by its components as they are written: the component
  \<^verbatim>\<open>..\<close> is a name like any other, so the table is the file system of the operating
  system for paths without it. Symbolic links and permissions are not modelled.
\<close>

text \<open>The exceptions the modelled calls raise (all are subclasses of
  \<^verbatim>\<open>OSError\<close>, hence of \<^verbatim>\<open>Exception\<close>).\<close>

datatype exn = FileExistsError | FileNotFoundError | NotADirectoryError
  | IsADirectoryError | SameFileError

datatype node = File string | Dir

type_synonym filesystem = "(path \<times> node) list"

definition lookup :: "filesystem \<Rightarrow> path \<Rightarrow> node option" where
  "lookup fs p = (if p = [] then Some Dir else map_of fs p)"

definition exists :: "filesystem \<Rightarrow> path \<Rightarrow> bool" where
  "exists fs p = (lookup fs p \<noteq> None)"

definition is_dir :: "filesystem \<Rightarrow> path \<Rightarrow> bool" where
  "is_dir fs p = (lookup fs p = Some Dir)"

definition is_file :: "filesystem \<Rightarrow> path \<Rightarrow> bool" where
  "is_file fs p = (case lookup fs p of Some (File c) \<Rightarrow> True | _ \<Rightarrow> False)"

text \<open>
  Path resolution: the directories above \<open>p\<close>, from the top, and the first of them that
  is missing (\<^verbatim>\<open>ENOENT\<close>) or not a directory (\<^verbatim>\<open>ENOTDIR\<close>).
\<close>

definition ancestors :: "path \<Rightarrow> path list" where
  "ancestors p = map (\<lambda>k. take k p) [1..<length p]"

fun walk :: "filesystem \<Rightarrow> path list \<Rightarrow> exn option" where
  "walk fs [] = None"
| "walk fs (q # qs) =
     (case lookup fs q of
        None \<Rightarrow> Some FileNotFoundError
      | Some (File c) \<Rightarrow> Some NotADirectoryError
      | Some Dir \<Rightarrow> walk fs qs)"

text \<open>\<^verbatim>\<open>os.mkdir(p)\<close>: the error it raises, if any, and the file system it leaves.\<close>

definition os_mkdir_error :: "filesystem \<Rightarrow> path \<Rightarrow> exn option" where
  "os_mkdir_error fs p =
     (case walk fs (ancestors p) of
        Some e \<Rightarrow> Some e
      | None \<Rightarrow> if exists fs p then Some FileExistsError else None)"

definition os_mkdir :: "filesystem \<Rightarrow> path \<Rightarrow> filesystem" where
  "os_mkdir fs p = (if os_mkdir_error fs p = None then (p, Dir) # fs else fs)"

text \<open>
  \<^verbatim>\<open>source.rglob("*")\<close>: every entry below \<open>source\<close> that is reached through
  directories, in the order of the table; nothing when \<open>source\<close> is not a directory.
\<close>

definition rglob :: "filesystem \<Rightarrow> path \<Rightarrow> path list" where
  "rglob fs source =
     (if is_dir fs source
      then filter (\<lambda>p. length source < length p \<and> take (length source) p = source
                     \<and> exists fs p \<and> walk fs (ancestors p) = None)
             (remdups (map fst fs))
      else [])"

text \<open>
  \<^verbatim>\<open>shutil.copy(src, dst)\<close>: a destination that is a directory stands for the file of
  the same name in it; the copy is refused when both are the same file, when the source
  cannot be opened for reading or the destination for writing. The result is the error or
  the content written.
\<close>

definition copy_target :: "filesystem \<Rightarrow> path \<Rightarrow> path \<Rightarrow> path" where
  "copy_target fs src dst = (if is_dir fs dst then joinpath dst (name src) else dst)"

definition shutil_copy_result :: "filesystem \<Rightarrow> path \<Rightarrow> path \<Rightarrow> exn + string" where
  "shutil_copy_result fs src dst =
     (let d = copy_target fs src dst in
      if exists fs src \<and> src = d then Inl SameFileError
      else case walk fs (ancestors src) of
        Some e \<Rightarrow> Inl e
      | None \<Rightarrow>
         (case lookup fs src of
            None \<Rightarrow> Inl FileNotFoundError
          | Some Dir \<Rightarrow> Inl IsADirectoryError
          | Some (File c) \<Rightarrow>
             (case walk fs (ancestors d) of
                Some e \<Rightarrow> Inl e
              | None \<Rightarrow> if is_dir fs d then Inl IsADirectoryError else Inr c)))"

definition shutil_copy :: "filesystem \<Rightarrow> path \<Rightarrow> path \<Rightarrow> filesystem" where
  "shutil_copy fs src dst =
     (case shutil_copy_result fs src dst of
        Inl e \<Rightarrow> fs
      | Inr c \<Rightarrow> (copy_target fs src dst, File c) # fs)"

section \<open>The state of a run\<close>

text \<open>
  A run changes the file system and writes log records
  (\<^verbatim>\<open>logging.info\<close>, \<^verbatim>\<open>logging.warning\<close>, \<^verbatim>\<open>logging.error\<close> with the
  program's four messages). The state also keeps the sequence of file-system calls made so
  far, in the order they were made.
\<close>

datatype level = INFO | WARNING | ERROR

datatype message = Copied path path | ErrorCopying path exn | SourceMissing path
  | NoFilesFound path

datatype call = Exists path | Rglob path | IsFile path | OsMkdir path | IsDir path
  | ShutilCopy path path

record world =
  fs :: filesystem
  logs :: "(level \<times> message) list"
  trace :: "call list"

definition call :: "call \<Rightarrow> world \<Rightarrow> world" where
  "call c w = w\<lparr>trace := trace w @ [c]\<rparr>"

definition emit :: "level \<Rightarrow> message \<Rightarrow> world \<Rightarrow> world" where
  "emit l m w = w\<lparr>logs := logs w @ [(l, m)]\<rparr>"

section \<open>Coroutines\<close>

text \<open>
  A coroutine object is a value: calling an \<^verbatim>\<open>async def\<close> function runs nothing. It
  is modelled as a \<open>task\<close>: finished, failed with an exception, or suspended before one
  atomic step, given by the step's effect on the state and by the rest of the coroutine,
  both functions of the state the step finds. A step is one file-system call, or one log
  record. \<open>seq\<close> is sequential composition and \<open>try_except\<close> is
  \<^verbatim>\<open>try: ... except Exception as e: ...\<close>.

  \<open>await\<close> runs a task to its end with nothing else running, as the awaiting of a
  coroutine does when the event loop has no other task.
\<close>

datatype task = Done | Raised exn | Step "world \<Rightarrow> world" "world \<Rightarrow> task"

primrec seq :: "task \<Rightarrow> task \<Rightarrow> task" where
  "seq Done k = k"
| "seq (Raised e) k = Raised e"
| "seq (Step eff next) k = Step eff (\<lambda>w. seq (next w) k)"

primrec try_except :: "task \<Rightarrow> (exn \<Rightarrow> task) \<Rightarrow> task" where
  "try_except Done h = Done"
| "try_except (Raised e) h = h e"
| "try_except (Step eff next) h = Step eff (\<lambda>w. try_except (next w) h)"

primrec await :: "task \<Rightarrow> world \<Rightarrow> (exn + unit) \<times> world" where
  "await Done w = (Inr (), w)"
| "await (Raised e) w = (Inl e, w)"
| "await (Step eff next) w = await (next w) (eff w)"

section \<open>The program\<close>

text \<open>
  \<^verbatim>\<open>Path.mkdir\<close>, as \<^verbatim>\<open>pathlib\<close> defines it:
  \<^verbatim>\<open>
    def mkdir(self, mode=0o777, parents=False, exist_ok=False):
        try:
            os.mkdir(self, mode)
        except FileNotFoundError:
            if not parents or self.parent == self:
                raise
            self.parent.mkdir(parents=True, exist_ok=True)
            self.mkdir(mode, parents=False, exist_ok=exist_ok)
        except OSError:
            if not exist_ok or not self.is_dir():
                raise
  \<close>
  Each \<^verbatim>\<open>os.mkdir\<close> and each \<^verbatim>\<open>is_dir\<close> is a step of its own, so that other
  tasks may run between any two of them.
\<close>

function mkdir :: "bool \<Rightarrow> bool \<Rightarrow> path \<Rightarrow> task" where
  "mkdir parents exist_ok p =
     Step (\<lambda>w. call (OsMkdir p) (w\<lparr>fs := os_mkdir (fs w) p\<rparr>))
       (\<lambda>w. case os_mkdir_error (fs w) p of
          None \<Rightarrow> Done
        | Some e \<Rightarrow>
            if e = FileNotFoundError then
              (if \<not> parents \<or> parent p = p then Raised e
               else seq (mkdir True True (parent p)) (mkdir False exist_ok p))
            else
              (if \<not> exist_ok then Raised e
               else Step (call (IsDir p)) (\<lambda>w. if is_dir (fs w) p then Done else Raised e)))"
  by pat_completeness auto
termination
  by (relation "measure (\<lambda>(parents, exist_ok, p). 2 * length p + (if parents then 1 else 0))")
    (auto simp: parent_def intro: diff_less elim: contrapos_np)

text \<open>\<^verbatim>\<open>aioshutil.copy\<close> is one step, and so is a call of \<^verbatim>\<open>logging\<close>.\<close>

definition aioshutil_copy :: "path \<Rightarrow> path \<Rightarrow> task" where
  "aioshutil_copy src dst =
     Step (\<lambda>w. call (ShutilCopy src dst) (w\<lparr>fs := shutil_copy (fs w) src dst\<rparr>))
       (\<lambda>w. case shutil_copy_result (fs w) src dst of Inl e \<Rightarrow> Raised e | Inr c \<Rightarrow> Done)"

definition logging :: "level \<Rightarrow> message \<Rightarrow> task" where
  "logging l m = Step (emit l m) (\<lambda>w. Done)"

text \<open>
  \<^verbatim>\<open>
    async def copy_file(path, output_folder):
        extension = path.suffix.lower()
        target_folder = output_folder / (
            extension.lstrip(".") if extension else "no_extension")
        try:
            await target_folder.mkdir(parents=True, exist_ok=True)
            target_path = target_folder / path.name
            await aioshutil.copy(path, target_path)
            logging.info(f"Copied {path} to {target_path}")
        except Exception as e:
            logging.error(f"Error copying file {path}: {e}")
  \<close>
\<close>

definition copy_file :: "path \<Rightarrow> path \<Rightarrow> task" where
  "copy_file path output_folder =
     (let extension = lower (suffix path);
          target_folder = joinpath output_folder
            (if extension \<noteq> [] then lstrip extension ''.'' else ''no_extension'')
      in try_except
           (seq (mkdir True True target_folder)
              (let target_path = joinpath target_folder (name path)
               in seq (aioshutil_copy path target_path)
                    (logging INFO (Copied path target_path))))
           (\<lambda>e. logging ERROR (ErrorCopying path e)))"

text \<open>
  \<^verbatim>\<open>await asyncio.gather(*tasks)\<close> runs the tasks interleaved. The interleaving is a
  schedule: the list of the indices of the tasks that take the next step, one after the
  other (an index that names no suspended task is skipped). \<open>gather\<close> returns as soon
  as a task has failed, with its exception, or when all tasks have finished; its result is
  \<open>None\<close> when the schedule ends before that.
\<close>

fun status :: "task list \<Rightarrow> (exn + unit) option" where
  "status [] = Some (Inr ())"
| "status (Raised e # ts) = Some (Inl e)"
| "status (Done # ts) = status ts"
| "status (Step eff next # ts) = (case status ts of Some (Inl e) \<Rightarrow> Some (Inl e) | _ \<Rightarrow> None)"

fun gather :: "nat list \<Rightarrow> task list \<Rightarrow> world \<Rightarrow> (exn + unit) option \<times> world" where
  "gather [] ts w = (status ts, w)"
| "gather (i # sched) ts w =
     (case status ts of
        Some r \<Rightarrow> (Some r, w)
      | None \<Rightarrow>
          if i < length ts then
            (case ts ! i of
               Step eff next \<Rightarrow> gather sched (ts[i := next w]) (eff w)
             | _ \<Rightarrow> gather sched ts w)
          else gather sched ts w)"

text \<open>
  \<^verbatim>\<open>
    async def read_folder(source, output):
        if not await source.exists():
            logging.error(f"Source folder {source} does not exist.")
            return
        tasks = []
        async for item in source.rglob("*"):
            if await item.is_file():
                tasks.append(copy_file(item, output))
        if tasks:
            await asyncio.gather(*tasks)
        else:
            logging.warning(f"No files found in the source folder: {source}")
  \<close>
  \<open>collect\<close> is the loop: it appends coroutine objects to \<^verbatim>\<open>tasks\<close> and runs none
  of them. With no task running, the file system does not change during the loop, and the
  paths the generator yields are those of the listing taken at its start.
\<close>

fun collect :: "path list \<Rightarrow> path \<Rightarrow> task list \<Rightarrow> world \<Rightarrow> task list \<times> world" where
  "collect [] output tasks w = (tasks, w)"
| "collect (item # items) output tasks w =
     (let w1 = call (IsFile item) w in
      if is_file (fs w1) item then collect items output (tasks @ [copy_file item output]) w1
      else collect items output tasks w1)"

definition read_folder :: "nat list \<Rightarrow> path \<Rightarrow> path \<Rightarrow> world \<Rightarrow> (exn + unit) option \<times> world" where
  "read_folder sched source output w =
     (let w1 = call (Exists source) w in
      if \<not> exists (fs w1) source
      then (Some (Inr ()), emit ERROR (SourceMissing source) w1)
      else
        let w2 = call (Rglob source) w1;
            (tasks, w3) = collect (rglob (fs w2) source) output [] w2
        in if tasks \<noteq> [] then gather sched tasks w3
           else (Some (Inr ()), emit WARNING (NoFilesFound source) w3))"

text \<open>
  \<^verbatim>\<open>
    async def main():
        args = parse_arguments()
        source_folder = AsyncPath(args.source)
        output_folder = AsyncPath(args.output)
        await output_folder.mkdir(parents=True, exist_ok=True)
        await read_folder(source_folder, output_folder)
  \<close>
  The two arguments and the schedule of the event loop are parameters.
\<close>

definition main :: "nat list \<Rightarrow> string \<Rightarrow> string \<Rightarrow> world \<Rightarrow> (exn + unit) option \<times> world" where
  "main sched source output w =
     (let source_folder = AsyncPath source;
          output_folder = AsyncPath output
      in case await (mkdir True True output_folder) w of
           (Inl e, w1) \<Rightarrow> (Some (Inl e), w1)
         | (Inr u, w1) \<Rightarrow> read_folder sched source_folder output_folder w1)"

section \<open>Notions used in the statements\<close>

text \<open>
  \<open>sound R Q n w t\<close>: started in state \<open>w\<close>, with other tasks changing the state
  between its steps only along the relation \<open>R\<close>, the task \<open>t\<close> changes the state
  only along \<open>R\<close> itself, ends within \<open>n\<close> steps, and \<open>Q\<close> holds of how it ends
  (\<open>None\<close>, or the exception) and of every later state.
\<close>

inductive sound :: "(world \<Rightarrow> world \<Rightarrow> bool) \<Rightarrow> (exn option \<Rightarrow> world \<Rightarrow> bool) \<Rightarrow> nat \<Rightarrow> world \<Rightarrow> task \<Rightarrow> bool"
  for R Q where
  sound_Done: "(\<And>w'. R w w' \<Longrightarrow> Q None w') \<Longrightarrow> sound R Q n w Done"
| sound_Raised: "(\<And>w'. R w w' \<Longrightarrow> Q (Some e) w') \<Longrightarrow> sound R Q n w (Raised e)"
| sound_Step: "(\<And>w'. R w w' \<Longrightarrow> R w' (eff w') \<and> sound R Q n (eff w') (next w'))
     \<Longrightarrow> sound R Q (Suc n) w (Step eff next)"

text \<open>
  \<open>dirs_added w w'\<close>: the file system of \<open>w'\<close> is that of \<open>w\<close> with directories
  added. \<open>chain_dirs p\<close>: \<open>p\<close> and all the paths above it are directories;
  \<open>chain_free p\<close>: none of them is a regular file. \<open>ensured p\<close>: the call ended
  normally and the chain of \<open>p\<close> stands. \<open>mkdir_budget\<close> bounds the steps of
  \<open>mkdir\<close>.
\<close>

definition dirs_added :: "world \<Rightarrow> world \<Rightarrow> bool" where
  "dirs_added w w' =
     (\<forall>q. lookup (fs w') q = lookup (fs w) q
        \<or> (lookup (fs w) q = None \<and> lookup (fs w') q = Some Dir))"

definition chain_dirs :: "path \<Rightarrow> world \<Rightarrow> bool" where
  "chain_dirs p w = (\<forall>k\<le>length p. is_dir (fs w) (take k p))"

definition chain_free :: "path \<Rightarrow> world \<Rightarrow> bool" where
  "chain_free p w = (\<forall>k\<le>length p. \<not> is_file (fs w) (take k p))"

definition ensured :: "path \<Rightarrow> exn option \<Rightarrow> world \<Rightarrow> bool" where
  "ensured p r w = (r = None \<and> chain_dirs p w)"

definition mkdir_budget :: "bool \<Rightarrow> path \<Rightarrow> nat" where
  "mkdir_budget parents p = (if parents then 3 * length p + 2 else 2)"

text \<open>
  The calls of the walk in \<^verbatim>\<open>read_folder\<close> (\<open>walker_call\<close>), and the calls and
  log records of the copy tasks for an output folder (\<open>task_call\<close>, \<open>task_log\<close>): a
  copy task creates directories and copies a file to the path computed for it.
  \<open>observed output w w'\<close>: from \<open>w\<close> to \<open>w'\<close> the log and the sequence of calls
  have grown, by records and calls of copy tasks only.
  \<open>attempted path output w\<close>: the directory of \<open>path\<close> has been asked for and the
  outcome of its copy has been logged; \<open>outcome\<close> adds that the task ended normally.
  \<open>discovered\<close> are the regular files \<^verbatim>\<open>read_folder\<close> finds, and \<open>walked\<close>
  is the state after its loop. \<open>copy_file_budget\<close> bounds the steps of a copy task.
\<close>

fun walker_call :: "call \<Rightarrow> bool" where
  "walker_call (Exists p) = True"
| "walker_call (Rglob p) = True"
| "walker_call (IsFile p) = True"
| "walker_call c = False"

fun task_call :: "path \<Rightarrow> call \<Rightarrow> bool" where
  "task_call output (OsMkdir q) = True"
| "task_call output (IsDir q) = True"
| "task_call output (ShutilCopy src dst) = (dst = target_path src output)"
| "task_call output c = False"

fun task_log :: "path \<Rightarrow> level \<times> message \<Rightarrow> bool" where
  "task_log output (l, Copied src dst) = (l = INFO \<and> dst = target_path src output)"
| "task_log output (l, ErrorCopying src e) = (l = ERROR)"
| "task_log output (l, m) = False"

definition observed :: "path \<Rightarrow> world \<Rightarrow> world \<Rightarrow> bool" where
  "observed output w w' =
     (\<exists>ls cs. logs w' = logs w @ ls \<and> trace w' = trace w @ cs
        \<and> list_all (task_log output) ls \<and> list_all (task_call output) cs)"

definition attempted :: "path \<Rightarrow> path \<Rightarrow> world \<Rightarrow> bool" where
  "attempted path output w =
     (OsMkdir (target_folder path output) \<in> set (trace w)
      \<and> ((INFO, Copied path (target_path path output)) \<in> set (logs w)
          \<or> (\<exists>e. (ERROR, ErrorCopying path e) \<in> set (logs w))))"

definition copy_file_budget :: "path \<Rightarrow> path \<Rightarrow> nat" where
  "copy_file_budget path output = 3 * length (target_folder path output) + 5"

definition outcome :: "path \<Rightarrow> path \<Rightarrow> exn option \<Rightarrow> world \<Rightarrow> bool" where
  "outcome path out r w = (r = None \<and> attempted path out w)"

definition discovered :: "world \<Rightarrow> path \<Rightarrow> path list" where
  "discovered w source = filter (is_file (fs w)) (rglob (fs w) source)"

definition walked :: "world \<Rightarrow> path \<Rightarrow> world" where
  "walked w source =
     w\<lparr>trace := trace w @ Exists source # Rglob source # map IsFile (rglob (fs w) source)\<rparr>"

text \<open>
  The file system looks a path up by its components as they are written, and
  \<^verbatim>\<open>AsyncPath\<close> measures a relative and an anchored argument from the same origin. Two
  arguments of the command line therefore name in the model what they name for the
  operating system when they are \<open>plain\<close> (no component \<^verbatim>\<open>..\<close>) and both relative or
  both \<open>anchored\<close>. \<open>mkdir_call\<close> are the calls of \<^verbatim>\<open>mkdir\<close>, and
  \<open>mkdir_frame p w w'\<close> says what a \<^verbatim>\<open>mkdir\<close> of \<open>p\<close> may change from \<open>w\<close> to
  \<open>w'\<close>: no log record, calls of \<^verbatim>\<open>mkdir\<close> only, and the file system at \<open>p\<close> and
  above it only.
\<close>

definition plain :: "path \<Rightarrow> bool" where
  "plain p = (''..'' \<notin> set p)"


fun mkdir_call :: "call \<Rightarrow> bool" where
  "mkdir_call (OsMkdir p) = True"
| "mkdir_call (IsDir p) = True"
| "mkdir_call c = False"

definition mkdir_frame :: "path \<Rightarrow> world \<Rightarrow> world \<Rightarrow> bool" where
  "mkdir_frame p w w' =
     (logs w' = logs w
      \<and> (\<exists>cs. trace w' = trace w @ cs \<and> list_all mkdir_call cs)
      \<and> (\<forall>q. (\<forall>k\<le>length p. q \<noteq> take k p) \<longrightarrow> lookup (fs w') q = lookup (fs w) q))"

section \<open>Example states\<close>

text \<open>Concrete states, on which the statements below are evaluated.\<close>

definition busy_world :: world where
  "busy_world = \<lparr>fs = [([''src''], Dir), ([''src'', ''a.txt''], File ''A''),
     ([''src'', ''b''], File ''B''), ([''out''], Dir), ([''out'', ''txt''], File ''X'')],
     logs = [], trace = []\<rparr>"

definition two_files :: world where
  "two_files = \<lparr>fs = [([''src''], Dir), ([''src'', ''a.txt''], File ''A''),
     ([''src'', ''sub''], Dir), ([''src'', ''sub'', ''b.txt''], File ''B'')],
     logs = [], trace = []\<rparr>"


definition only_dirs :: world where
  "only_dirs = \<lparr>fs = [([''src''], Dir), ([''src'', ''sub''], Dir), ([''notes.txt''], File ''N'')],
     logs = [], trace = []\<rparr>"

definition report_world :: world where
  "report_world = \<lparr>fs = [([''src''], Dir), ([''src'', ''x''], Dir),
     ([''src'', ''x'', ''Report.PDF''], File ''%PDF'')], logs = [], trace = []\<rparr>"

definition blocked_world :: world where
  "blocked_world = \<lparr>fs = [([''src''], Dir), ([''src'', ''a.txt''], File ''A''), ([''out''], Dir),
     ([''out'', ''txt''], Dir), ([''out'', ''txt'', ''a.txt''], Dir)], logs = [], trace = []\<rparr>"

section \<open>Properties of the classification\<close>

lemma rfind_absent: "c \<notin> set s \<Longrightarrow> rfind s c = - 1"
  by (induction s) (auto simp: Let_def)

lemma rfind_last: "c \<notin> set ys \<Longrightarrow> rfind (xs @ c # ys) c = int (length xs)"
  by (induction xs) (auto simp: Let_def rfind_absent)

lemma rfind_split:
  "0 \<le> rfind s c \<Longrightarrow>
   \<exists>xs ys. s = xs @ c # ys \<and> c \<notin> set ys \<and> rfind s c = int (length xs)"
proof (induction s)
  case Nil
  then show ?case by simp
next
  case (Cons x s)
  show ?case
  proof (cases "0 \<le> rfind s c")
    case True
    with Cons.IH obtain xs ys where
      "s = xs @ c # ys" "c \<notin> set ys" "rfind s c = int (length xs)" by blast
    then have "x # s = (x # xs) @ c # ys \<and> c \<notin> set ys
      \<and> rfind (x # s) c = int (length (x # xs))"
      by (simp add: Let_def)
    then show ?thesis by blast
  next
    case False
    with Cons.prems have xc: "x = c" and r: "rfind (x # s) c = 0"
      by (auto simp: Let_def split: if_splits)
    have "c \<notin> set s"
    proof
      assume "c \<in> set s"
      then obtain us vs where "s = us @ c # vs" "c \<notin> set vs"
        by (meson split_list_last)
      then have "rfind s c = int (length us)" by (simp add: rfind_last)
      with False show False by simp
    qed
    with xc r have "x # s = [] @ c # s \<and> c \<notin> set s \<and> rfind (x # s) c = int (length ([]::string))"
      by simp
    then show ?thesis by blast
  qed
qed

text \<open>An evaluation of \<open>lower\<close> that reaches the Unicode database stops there.\<close>

lemma unicode_lower_code [code]:
  "unicode_lower s = Code.abort (STR ''unicode_lower'') (\<lambda>_. unicode_lower s)"
  by simp

lemma Py_TOLOWER_fixes:
  assumes "(of_char d :: nat) < 65"
  shows "Py_TOLOWER c = d \<longleftrightarrow> c = d"
proof
  assume eq: "Py_TOLOWER c = d"
  show "c = d"
  proof (cases "65 \<le> (of_char c :: nat) \<and> (of_char c :: nat) \<le> 90")
    case True
    then have "Py_TOLOWER c = char_of (of_char c + 32 :: nat)"
      by (simp add: Py_TOLOWER_def Let_def)
    then have "(of_char (Py_TOLOWER c) :: nat) = (of_char c + 32) mod 256"
      by simp
    with True have "(of_char (Py_TOLOWER c) :: nat) = of_char c + 32" by simp
    with True eq assms show ?thesis by simp
  next
    case False
    then have "Py_TOLOWER c = c" by (auto simp: Py_TOLOWER_def Let_def)
    with eq show ?thesis by simp
  qed
next
  assume "c = d"
  with assms show "Py_TOLOWER c = d" by (simp add: Py_TOLOWER_def Let_def)
qed

lemma Py_TOLOWER_dot [simp]: "Py_TOLOWER c = CHR ''.'' \<longleftrightarrow> c = CHR ''.''"
  by (rule Py_TOLOWER_fixes) simp

lemma Py_TOLOWER_sep [simp]: "Py_TOLOWER c = CHR ''/'' \<longleftrightarrow> c = CHR ''/''"
  by (rule Py_TOLOWER_fixes) simp

text \<open>Lower-casing keeps the skeleton of a string, on both of its branches.\<close>

lemma skeleton_Nil [simp]: "skeleton s = [] \<longleftrightarrow> s = []"
  by (cases s) auto

lemma skeleton_sep:
  "skeleton s = Some c # r \<Longrightarrow> \<exists>cs. s = c # cs \<and> skeleton cs = r"
  by (cases s) (auto split: if_splits)

lemma skeleton_mem:
  "Some c \<in> set (skeleton s) \<longleftrightarrow> c \<in> set s \<and> (c = CHR ''.'' \<or> c = CHR ''/'')"
  by (induction s) auto

lemma skeleton_eq:
  assumes "skeleton a = skeleton b"
  shows "a = [] \<longleftrightarrow> b = []"
    and "CHR ''.'' \<in> set a \<longleftrightarrow> CHR ''.'' \<in> set b"
    and "CHR ''/'' \<in> set a \<longleftrightarrow> CHR ''/'' \<in> set b"
  using assms skeleton_Nil [of a] skeleton_Nil [of b]
    skeleton_mem [of "CHR ''.''" a] skeleton_mem [of "CHR ''.''" b]
    skeleton_mem [of "CHR ''/''" a] skeleton_mem [of "CHR ''/''" b]
  by simp_all

lemma skeleton_unicode_lower: "skeleton (unicode_lower s) = skeleton s"
  using cased [of undefined] by (simp add: unicode_lower_def)

lemma skeleton_map_Py_TOLOWER: "skeleton (map Py_TOLOWER s) = skeleton s"
  by (induction s) simp_all

lemma skeleton_lower: "skeleton (lower s) = skeleton s"
  by (simp add: lower_def skeleton_map_Py_TOLOWER skeleton_unicode_lower)

lemma lower_ascii: "isascii s \<Longrightarrow> lower s = map Py_TOLOWER s"
  by (simp add: lower_def)

lemma lower_Nil [simp]: "lower s = [] \<longleftrightarrow> s = []"
  using skeleton_eq(1) [OF skeleton_lower] .

lemma lower_suffix:
  "\<exists>b. lower (CHR ''.'' # e) = CHR ''.'' # b \<and> skeleton b = skeleton e"
proof -
  have "skeleton (lower (CHR ''.'' # e)) = Some (CHR ''.'') # skeleton e"
    by (simp add: skeleton_lower)
  from skeleton_sep [OF this] show ?thesis by blast
qed

lemma lstrip_no_dot: "CHR ''.'' \<notin> set b \<Longrightarrow> lstrip (CHR ''.'' # b) ''.'' = b"
  by (cases b) (auto simp: lstrip_def)

lemma split_sep_single: "CHR ''/'' \<notin> set s \<Longrightarrow> split_sep s = [s]"
  by (induction s) auto

lemma joinpath_component:
  "CHR ''/'' \<notin> set s \<Longrightarrow> s \<noteq> [] \<Longrightarrow> s \<noteq> ''.'' \<Longrightarrow> joinpath p s = p @ [s]"
  by (cases s) (auto simp: joinpath_def parts_of_def split_sep_single)

text \<open>The suffix of a path is empty, or a dot followed by a non-empty segment that has no
  dot, after a non-empty stem.\<close>

lemma suffix_cases:
  "suffix p = [] \<or>
   (\<exists>stem e. name p = stem @ CHR ''.'' # e \<and> stem \<noteq> [] \<and> e \<noteq> [] \<and> CHR ''.'' \<notin> set e
      \<and> suffix p = CHR ''.'' # e)"
proof (cases "0 < rfind (name p) (CHR ''.'') \<and> rfind (name p) (CHR ''.'') < int (length (name p)) - 1")
  case False
  then show ?thesis by (auto simp: suffix_def Let_def)
next
  case True
  then have "0 \<le> rfind (name p) (CHR ''.'')" by simp
  from rfind_split [OF this] obtain xs ys where
    s: "name p = xs @ CHR ''.'' # ys" "CHR ''.'' \<notin> set ys"
       "rfind (name p) (CHR ''.'') = int (length xs)"
    by blast
  with True have "xs \<noteq> []" "ys \<noteq> []" by auto
  moreover from True s have "suffix p = CHR ''.'' # ys"
    by (simp add: suffix_def Let_def)
  ultimately show ?thesis using s by blast
qed

lemma suffix_extension:
  assumes "name p = stem @ CHR ''.'' # e" "stem \<noteq> []" "e \<noteq> []" "CHR ''.'' \<notin> set e"
  shows "suffix p = CHR ''.'' # e"
proof -
  have "rfind (name p) (CHR ''.'') = int (length stem)"
    using assms by (simp add: rfind_last)
  moreover have "0 < length stem" "0 < length e" using assms by simp_all
  ultimately show ?thesis using assms by (simp add: suffix_def Let_def)
qed

lemma classify_of_suffix:
  assumes "suffix p = CHR ''.'' # e" and "CHR ''.'' \<notin> set e"
  shows "lower (CHR ''.'' # e) = CHR ''.'' # classify p"
    and "skeleton (classify p) = skeleton e"
proof -
  from lower_suffix [of e] obtain b where
    b: "lower (CHR ''.'' # e) = CHR ''.'' # b" "skeleton b = skeleton e"
    by blast
  from skeleton_eq(2) [OF b(2)] assms(2) have "CHR ''.'' \<notin> set b" by simp
  with assms(1) b(1) have "classify p = b"
    by (simp add: classify_def Let_def lstrip_no_dot)
  with b show "lower (CHR ''.'' # e) = CHR ''.'' # classify p"
    and "skeleton (classify p) = skeleton e"
    by simp_all
qed

lemma classify_no_suffix: "suffix p = [] \<Longrightarrow> classify p = ''no_extension''"
  by (simp add: classify_def Let_def)

lemma joinpath_no_extension: "joinpath p ''no_extension'' = p @ [''no_extension'']"
  by (rule joinpath_component) simp_all

text \<open>
  \<^bold>\<open>C1.\<close> When the name of a file is a non-empty stem, a dot and a non-empty extension
  \<open>E\<close> without a dot (so \<open>E\<close> is what follows the final dot, whatever dots the stem has, and
  whatever the case of its letters), the suffix is the dot and \<open>E\<close>, the bucket is the
  lower-cased suffix without its dot, and the destination directory is the output folder
  followed by the bucket. When \<open>E\<close> is made of ASCII characters the bucket is \<open>E\<close> with
  \<^verbatim>\<open>A\<close> to \<^verbatim>\<open>Z\<close> replaced by \<^verbatim>\<open>a\<close> to \<^verbatim>\<open>z\<close>; for any other \<open>E\<close> it is what
  \<^verbatim>\<open>str.lower\<close> makes of it.
\<close>

theorem classify_extension:
  assumes "name path = stem @ CHR ''.'' # E"
    and "stem \<noteq> []" and "E \<noteq> []" and "CHR ''.'' \<notin> set E" and "CHR ''/'' \<notin> set E"
  shows "suffix path = CHR ''.'' # E
    \<and> lower (CHR ''.'' # E) = CHR ''.'' # classify path
    \<and> target_folder path output_folder = output_folder @ [classify path]
    \<and> (isascii E \<longrightarrow> classify path = map Py_TOLOWER E)"
proof -
  have s: "suffix path = CHR ''.'' # E"
    using assms(1-4) by (rule suffix_extension)
  note c = classify_of_suffix [OF s assms(4)]
  from skeleton_eq [OF c(2)] assms(3-5)
  have n: "classify path \<noteq> []" "CHR ''.'' \<notin> set (classify path)"
    "CHR ''/'' \<notin> set (classify path)"
    by simp_all
  from n(2) have "classify path \<noteq> ''.''" by auto
  with n have t: "joinpath output_folder (classify path) = output_folder @ [classify path]"
    by (intro joinpath_component)
  have a: "classify path = map Py_TOLOWER E" if "isascii E"
  proof -
    from that have "isascii (CHR ''.'' # E)" by (simp add: isascii_def)
    then have "lower (CHR ''.'' # E) = map Py_TOLOWER (CHR ''.'' # E)" by (rule lower_ascii)
    also have "\<dots> = CHR ''.'' # map Py_TOLOWER E" by simp
    finally show ?thesis using c(1) by simp
  qed
  from s c(1) t a show ?thesis by (simp add: target_folder_def)
qed

theorem classify_extension_witness:
  "suffix [''src'', ''sub'', ''Archive.tar.GZ''] = ''.GZ''
   \<and> lower ''.GZ'' = ''.gz''
   \<and> classify [''src'', ''sub'', ''Archive.tar.GZ''] = ''gz''
   \<and> target_folder [''src'', ''sub'', ''Archive.tar.GZ''] [''out''] = [''out'', ''gz'']"
proof -
  have a: "isascii ''GZ''" by code_simp
  have b: "map Py_TOLOWER ''GZ'' = ''gz''" by code_simp
  from classify_extension [of "[''src'', ''sub'', ''Archive.tar.GZ'']" "''Archive.tar''" "''GZ''"
    "[''out'']"] a b
  show ?thesis by (simp add: name_def)
qed

text \<open>
  \<^bold>\<open>C2.\<close> A file whose name has no dot, or is a dot-file (a leading dot and no further
  dot), has an empty suffix, falls into the bucket \<^verbatim>\<open>no_extension\<close>, and its
  destination directory is \<^verbatim>\<open>output_folder/no_extension\<close>.
\<close>

theorem classify_no_extension:
  assumes "CHR ''.'' \<notin> set (name path)
    \<or> (\<exists>rest. name path = CHR ''.'' # rest \<and> CHR ''.'' \<notin> set rest)"
  shows "suffix path = [] \<and> classify path = ''no_extension''
    \<and> target_folder path output_folder = output_folder @ [''no_extension'']"
proof -
  have "rfind (name path) (CHR ''.'') \<le> 0"
    using assms by (auto simp: rfind_absent Let_def)
  then have "suffix path = []" by (simp add: suffix_def Let_def)
  then show ?thesis
    by (simp add: classify_no_suffix target_folder_def joinpath_no_extension)
qed

theorem classify_no_extension_witness:
  "suffix [''src'', ''.gitignore''] = [] \<and> classify [''src'', ''.gitignore''] = ''no_extension''
   \<and> target_folder [''src'', ''.gitignore''] [''out''] = [''out'', ''no_extension'']
   \<and> classify [''src'', ''Makefile''] = ''no_extension''"
  using classify_no_extension [of "[''src'', ''.gitignore'']" "[''out'']"]
    classify_no_extension [of "[''src'', ''Makefile'']" "[''out'']"]
  by (simp add: name_def)

text \<open>
  \<^bold>\<open>C9.\<close> A name that ends with a dot has an empty suffix and falls into the bucket
  \<^verbatim>\<open>no_extension\<close>; and for every path the bucket is not empty and does not start
  with a dot.
\<close>

theorem classify_trailing_dot:
  "(name path = stem @ ''.'' \<longrightarrow> suffix path = [] \<and> classify path = ''no_extension'')
   \<and> classify path \<noteq> [] \<and> hd (classify path) \<noteq> CHR ''.''"
proof -
  have a: "suffix path = []" if "name path = stem @ ''.''"
  proof -
    have "rfind (name path) (CHR ''.'') = int (length stem)"
      using that by (simp add: rfind_last)
    with that show ?thesis by (simp add: suffix_def Let_def)
  qed
  have b: "classify path \<noteq> [] \<and> hd (classify path) \<noteq> CHR ''.''"
  proof -
    from suffix_cases [of path] show ?thesis
    proof
      assume "suffix path = []"
      then show ?thesis by (simp add: classify_no_suffix)
    next
      assume "\<exists>stem e. name path = stem @ CHR ''.'' # e \<and> stem \<noteq> [] \<and> e \<noteq> []
        \<and> CHR ''.'' \<notin> set e \<and> suffix path = CHR ''.'' # e"
      then obtain e where e: "e \<noteq> []" "CHR ''.'' \<notin> set e" "suffix path = CHR ''.'' # e"
        by blast
      from skeleton_eq [OF classify_of_suffix(2) [OF e(3) e(2)]] e(1,2)
      have "classify path \<noteq> []" and "CHR ''.'' \<notin> set (classify path)" by simp_all
      then show ?thesis by (cases "classify path") auto
    qed
  qed
  from a b show ?thesis by (simp add: classify_no_suffix)
qed

theorem classify_trailing_dot_witness:
  "suffix [''src'', ''archive.''] = [] \<and> classify [''src'', ''archive.''] = ''no_extension''
   \<and> hd (classify [''src'', ''a..B'']) \<noteq> CHR ''.''"
  using classify_trailing_dot [of "[''src'', ''archive.'']" "''archive''"]
    classify_trailing_dot [of "[''src'', ''a..B'']" "[]"]
  by (simp add: name_def)

section \<open>Tasks under interleaving\<close>

declare mkdir.simps [simp del]

inductive_cases sound_DoneE: "sound R Q n w Done"
inductive_cases sound_RaisedE: "sound R Q n w (Raised e)"
inductive_cases sound_StepE: "sound R Q n w (Step eff next)"

lemma sound_world:
  assumes "sound R Q n w t" and "R w w1" and tp: "transp R"
  shows "sound R Q n w1 t"
proof -
  have tr: "R w w'" if "R w1 w'" for w'
    using tp assms(2) that by (rule transpD)
  from assms(1) show ?thesis
    by (cases rule: sound.cases) (auto intro!: sound.intros dest: tr)
qed

lemma sound_budget: "sound R Q n w t \<Longrightarrow> n \<le> m \<Longrightarrow> sound R Q m w t"
proof (induction arbitrary: m rule: sound.induct)
  case (sound_Done w n)
  then show ?case by (auto intro: sound.sound_Done)
next
  case (sound_Raised w e n)
  then show ?case by (auto intro: sound.sound_Raised)
next
  case (sound_Step w eff n "next")
  from sound_Step.prems obtain m' where m: "m = Suc m'" "n \<le> m'" by (cases m) auto
  show ?case unfolding m
    by (rule sound.sound_Step) (use sound_Step.IH m in blast)
qed

lemma sound_frame:
  assumes "sound R Q n w t" and "P w" and st: "\<And>a b. R a b \<Longrightarrow> P a \<Longrightarrow> P b"
  shows "sound R (\<lambda>r w. Q r w \<and> P w) n w t"
  using assms(1,2)
proof (induction rule: sound.induct)
  case (sound_Done w n)
  then show ?case using st by (auto intro: sound.sound_Done)
next
  case (sound_Raised w e n)
  then show ?case using st by (auto intro: sound.sound_Raised)
next
  case (sound_Step w eff n "next")
  show ?case
  proof (rule sound.sound_Step, intro conjI)
    fix w' assume r: "R w w'"
    with sound_Step.IH show g: "R w' (eff w')" by blast
    from r sound_Step.prems have "P w'" by (rule st)
    with g have "P (eff w')" by (rule st)
    with sound_Step.IH r show "sound R (\<lambda>r w. Q r w \<and> P w) n (eff w') (next w')" by blast
  qed
qed

lemma sound_seq:
  assumes s: "sound R Q1 n1 w t1"
    and k: "\<And>w'. R w w' \<Longrightarrow> Q1 None w' \<Longrightarrow> sound R Q2 n2 w' t2"
    and ex: "\<And>e w'. Q1 (Some e) w' \<Longrightarrow> Q2 (Some e) w'"
    and rp: "reflp R" and tp: "transp R"
  shows "sound R Q2 (n1 + n2) w (seq t1 t2)"
proof -
  have rf: "R a a" for a using rp by (rule reflpD)
  have tr: "R a c" if "R a b" "R b c" for a b c using tp that by (rule transpD)
  from s k show ?thesis
  proof (induction rule: sound.induct)
    case (sound_Done w n)
    have "sound R Q2 n2 w t2" using sound_Done rf by blast
    then show ?case by (simp add: sound_budget)
  next
    case (sound_Raised w e n)
    then show ?case using ex by (auto intro: sound.sound_Raised)
  next
    case (sound_Step w eff n "next")
    have "sound R Q2 (Suc (n + n2)) w (Step eff (\<lambda>w. seq (next w) t2))"
    proof (rule sound.sound_Step, intro conjI)
      fix w' assume r: "R w w'"
      with sound_Step.IH show "R w' (eff w')" by blast
      have "\<And>w''. R (eff w') w'' \<Longrightarrow> Q1 None w'' \<Longrightarrow> sound R Q2 n2 w'' t2"
        using sound_Step.prems sound_Step.IH r tr by blast
      with sound_Step.IH r show "sound R Q2 (n + n2) (eff w') (seq (next w') t2)" by blast
    qed
    then show ?case by simp
  qed
qed

lemma sound_try_except:
  assumes s: "sound R Q1 n1 w t"
    and h: "\<And>e w'. R w w' \<Longrightarrow> Q1 (Some e) w' \<Longrightarrow> sound R Q2 n2 w' (h e)"
    and ok: "\<And>w'. Q1 None w' \<Longrightarrow> Q2 None w'"
    and rp: "reflp R" and tp: "transp R"
  shows "sound R Q2 (n1 + n2) w (try_except t h)"
proof -
  have rf: "R a a" for a using rp by (rule reflpD)
  have tr: "R a c" if "R a b" "R b c" for a b c using tp that by (rule transpD)
  from s h show ?thesis
  proof (induction rule: sound.induct)
    case (sound_Done w n)
    then show ?case using ok by (auto intro: sound.sound_Done)
  next
    case (sound_Raised w e n)
    have "sound R Q2 n2 w (h e)" using sound_Raised rf by blast
    then show ?case by (simp add: sound_budget)
  next
    case (sound_Step w eff n "next")
    have "sound R Q2 (Suc (n + n2)) w (Step eff (\<lambda>w. try_except (next w) h))"
    proof (rule sound.sound_Step, intro conjI)
      fix w' assume r: "R w w'"
      with sound_Step.IH show "R w' (eff w')" by blast
      have "\<And>e w''. R (eff w') w'' \<Longrightarrow> Q1 (Some e) w'' \<Longrightarrow> sound R Q2 n2 w'' (h e)"
        using sound_Step.prems sound_Step.IH r tr by blast
      with sound_Step.IH r show "sound R Q2 (n + n2) (eff w') (try_except (next w') h)"
        by blast
    qed
    then show ?case by simp
  qed
qed

lemma sound_await:
  assumes s: "sound R Q n w t" and rp: "reflp R" and tp: "transp R"
  shows "R w (snd (await t w))
    \<and> Q (case fst (await t w) of Inl e \<Rightarrow> Some e | Inr u \<Rightarrow> None) (snd (await t w))"
proof -
  have rf: "R a a" for a using rp by (rule reflpD)
  have tr: "R a c" if "R a b" "R b c" for a b c using tp that by (rule transpD)
  from s show ?thesis
  proof (induction rule: sound.induct)
    case (sound_Done w n)
    then show ?case using rf by simp
  next
    case (sound_Raised w e n)
    then show ?case using rf by simp
  next
    case (sound_Step w eff n "next")
    from sound_Step.IH [OF rf]
    have a: "R w (eff w)" and b: "R (eff w) (snd (await (next w) (eff w)))"
      and c: "Q (case fst (await (next w) (eff w)) of Inl e \<Rightarrow> Some e | Inr u \<Rightarrow> None)
                (snd (await (next w) (eff w)))"
      by blast+
    from a b have "R w (snd (await (next w) (eff w)))" by (rule tr)
    with c show ?case by simp
  qed
qed

lemma status_raised: "status ts = Some (Inl e) \<Longrightarrow> Raised e \<in> set ts"
  by (induction ts rule: status.induct) (auto split: option.splits sum.splits)

lemma status_finished: "status ts = Some (Inr u) \<longleftrightarrow> (\<forall>t\<in>set ts. t = Done)"
  by (induction ts rule: status.induct) (auto split: option.splits sum.splits)

lemma status_no_step:
  "\<forall>t\<in>set ts. \<forall>eff next. t \<noteq> Step eff next \<Longrightarrow> status ts \<noteq> None"
  by (induction ts rule: status.induct) auto

lemma sound_zero: "sound R Q 0 w t \<Longrightarrow> t \<noteq> Step eff next"
  by (auto elim: sound.cases)

lemma gather_sound:
  assumes rp: "reflp R" and tp: "transp R"
    and nx: "\<And>i e w'. \<not> Q i (Some e) w'"
    and ts: "\<forall>i<length ts. sound R (Q i) (b i) w (ts ! i)"
  shows "R w (snd (gather sched ts w))
    \<and> (\<forall>e. fst (gather sched ts w) \<noteq> Some (Inl e))
    \<and> (fst (gather sched ts w) = Some (Inr ()) \<longrightarrow> (\<forall>i<length ts. Q i None (snd (gather sched ts w))))
    \<and> ((\<forall>i<length ts. b i \<le> count_list sched i) \<longrightarrow> fst (gather sched ts w) = Some (Inr ()))"
proof -
  have rf: "R a a" for a using rp by (rule reflpD)
  have tr: "R a c" if "R a b" "R b c" for a b c using tp that by (rule transpD)
  from ts show ?thesis
proof (induction sched arbitrary: ts w b)
  case Nil
  have no_raise: "status ts \<noteq> Some (Inl e)" for e
  proof
    assume "status ts = Some (Inl e)"
    then have "Raised e \<in> set ts" by (rule status_raised)
    then obtain i where "i < length ts" "ts ! i = Raised e" by (auto simp: in_set_conv_nth)
    with Nil have "sound R (Q i) (b i) w (Raised e)" by metis
    then have "Q i (Some e) w" using rf by (auto elim: sound_RaisedE)
    with nx show False by blast
  qed
  have post: "\<forall>i<length ts. Q i None w" if "status ts = Some (Inr ())"
  proof (intro allI impI)
    fix i assume i: "i < length ts"
    with that have "ts ! i = Done" by (simp add: status_finished)
    with Nil i have "sound R (Q i) (b i) w Done" by metis
    then show "Q i None w" using rf by (auto elim: sound_DoneE)
  qed
  have fin: "status ts = Some (Inr ())" if "\<forall>i<length ts. b i \<le> count_list [] i"
  proof -
    have "\<forall>t\<in>set ts. \<forall>eff next. t \<noteq> Step eff next"
    proof (intro ballI allI)
      fix t eff "next" assume "t \<in> set ts"
      then obtain i where i: "i < length ts" "ts ! i = t" by (auto simp: in_set_conv_nth)
      with that have "b i = 0" by simp
      with Nil i have "sound R (Q i) 0 w t" by metis
      then show "t \<noteq> Step eff next" by (rule sound_zero)
    qed
    then have "status ts \<noteq> None" by (rule status_no_step)
    then obtain r where r: "status ts = Some r" by blast
    with no_raise show ?thesis by (cases r) auto
  qed
  show ?case using rf no_raise post fin by simp
next
  case (Cons i sched)
  have no_raise: "status ts \<noteq> Some (Inl e)" for e
  proof
    assume "status ts = Some (Inl e)"
    then have "Raised e \<in> set ts" by (rule status_raised)
    then obtain j where "j < length ts" "ts ! j = Raised e" by (auto simp: in_set_conv_nth)
    with Cons.prems have "sound R (Q j) (b j) w (Raised e)" by metis
    then have "Q j (Some e) w" using rf by (auto elim: sound_RaisedE)
    with nx show False by blast
  qed
  have post: "\<forall>j<length ts. Q j None w" if "status ts = Some (Inr ())"
  proof (intro allI impI)
    fix j assume j: "j < length ts"
    with that have "ts ! j = Done" by (simp add: status_finished)
    with Cons.prems j have "sound R (Q j) (b j) w Done" by metis
    then show "Q j None w" using rf by (auto elim: sound_DoneE)
  qed
  show ?case
  proof (cases "status ts")
    case (Some r)
    with no_raise have "r = Inr ()" by (cases r) auto
    with Some show ?thesis using rf post by simp
  next
    case None
    consider (step) eff "next" where "i < length ts" "ts ! i = Step eff next"
      | (skip) "i < length ts" "ts ! i = Done" | (out) "\<not> i < length ts"
    proof (cases "i < length ts")
      case True
      show ?thesis
      proof (cases "ts ! i")
        case Done
        with True skip show ?thesis by blast
      next
        case (Raised e)
        with True Cons.prems have "sound R (Q i) (b i) w (Raised e)" by metis
        then have "Q i (Some e) w" using rf by (auto elim: sound_RaisedE)
        with nx show ?thesis by blast
      next
        case (Step eff "next")
        with True step show ?thesis by blast
      qed
    next
      case False
      with out show ?thesis by blast
    qed
    then show ?thesis
    proof cases
      case step
      from Cons.prems step have "sound R (Q i) (b i) w (Step eff next)" by metis
      then obtain n where n: "b i = Suc n" "R w (eff w)" "sound R (Q i) n (eff w) (next w)"
        using rf by (auto elim: sound_StepE)
      let ?ts = "ts[i := next w]" and ?b = "b(i := n)"
      have "\<forall>j<length ?ts. sound R (Q j) (?b j) (eff w) (?ts ! j)"
      proof (intro allI impI)
        fix j assume j: "j < length ?ts"
        show "sound R (Q j) (?b j) (eff w) (?ts ! j)"
        proof (cases "j = i")
          case True
          with n step show ?thesis by simp
        next
          case False
          with j Cons.prems have "sound R (Q j) (b j) w (ts ! j)" by simp
          then have "sound R (Q j) (b j) (eff w) (ts ! j)"
            using n(2) tp by (rule sound_world)
          with False show ?thesis by simp
        qed
      qed
      from Cons.IH [OF this]
      have ih: "R (eff w) (snd (gather sched ?ts (eff w)))"
        "\<forall>e. fst (gather sched ?ts (eff w)) \<noteq> Some (Inl e)"
        "fst (gather sched ?ts (eff w)) = Some (Inr ()) \<longrightarrow>
           (\<forall>j<length ?ts. Q j None (snd (gather sched ?ts (eff w))))"
        "(\<forall>j<length ?ts. ?b j \<le> count_list sched j) \<longrightarrow>
           fst (gather sched ?ts (eff w)) = Some (Inr ())"
        by blast+
      have g: "gather (i # sched) ts w = gather sched ?ts (eff w)"
        using None step by simp
      have "R w (snd (gather sched ?ts (eff w)))" using n(2) ih(1) by (rule tr)
      moreover have "(\<forall>j<length ts. b j \<le> count_list (i # sched) j) \<longrightarrow>
        (\<forall>j<length ?ts. ?b j \<le> count_list sched j)"
        using n(1) by (auto split: if_splits)
      ultimately show ?thesis unfolding g using ih by auto
    next
      case skip
      let ?b = "b(i := 0)"
      have "\<forall>j<length ts. sound R (Q j) (?b j) w (ts ! j)"
      proof (intro allI impI)
        fix j assume j: "j < length ts"
        show "sound R (Q j) (?b j) w (ts ! j)"
        proof (cases "j = i")
          case True
          from Cons.prems skip have "sound R (Q i) (b i) w Done" by metis
          then have "sound R (Q i) 0 w Done" by (auto elim!: sound_DoneE intro: sound.sound_Done)
          with True skip show ?thesis by simp
        next
          case False
          with j Cons.prems show ?thesis by simp
        qed
      qed
      from Cons.IH [OF this]
      have ih: "R w (snd (gather sched ts w))"
        "\<forall>e. fst (gather sched ts w) \<noteq> Some (Inl e)"
        "fst (gather sched ts w) = Some (Inr ()) \<longrightarrow>
           (\<forall>j<length ts. Q j None (snd (gather sched ts w)))"
        "(\<forall>j<length ts. ?b j \<le> count_list sched j) \<longrightarrow>
           fst (gather sched ts w) = Some (Inr ())"
        by blast+
      have g: "gather (i # sched) ts w = gather sched ts w"
        using None skip by simp
      have "(\<forall>j<length ts. b j \<le> count_list (i # sched) j) \<longrightarrow>
        (\<forall>j<length ts. ?b j \<le> count_list sched j)"
        by (auto split: if_splits)
      then show ?thesis unfolding g using ih by auto
    next
      case out
      from Cons.IH [OF Cons.prems]
      have ih: "R w (snd (gather sched ts w))"
        "\<forall>e. fst (gather sched ts w) \<noteq> Some (Inl e)"
        "fst (gather sched ts w) = Some (Inr ()) \<longrightarrow>
           (\<forall>j<length ts. Q j None (snd (gather sched ts w)))"
        "(\<forall>j<length ts. b j \<le> count_list sched j) \<longrightarrow>
           fst (gather sched ts w) = Some (Inr ())"
        by blast+
      have g: "gather (i # sched) ts w = gather sched ts w"
        using None out by simp
      have "(\<forall>j<length ts. b j \<le> count_list (i # sched) j) \<longrightarrow>
        (\<forall>j<length ts. b j \<le> count_list sched j)"
        using out by (auto split: if_splits)
      then show ?thesis unfolding g using ih by auto
    qed
  qed
qed
qed

section \<open>Creating directories\<close>

lemma dirs_added_refl: "dirs_added w w"
  by (simp add: dirs_added_def)

lemma dirs_added_at:
  "dirs_added w w' \<Longrightarrow>
   lookup (fs w') q = lookup (fs w) q \<or> (lookup (fs w) q = None \<and> lookup (fs w') q = Some Dir)"
  by (simp add: dirs_added_def)

lemma dirs_added_trans:
  assumes "dirs_added a b" and "dirs_added b c"
  shows "dirs_added a c"
  unfolding dirs_added_def
proof
  fix q
  from dirs_added_at [OF assms(1), of q] dirs_added_at [OF assms(2), of q]
  show "lookup (fs c) q = lookup (fs a) q \<or> (lookup (fs a) q = None \<and> lookup (fs c) q = Some Dir)"
    by auto
qed

lemma reflp_dirs_added: "reflp dirs_added"
  by (rule reflpI) (rule dirs_added_refl)

lemma transp_dirs_added: "transp dirs_added"
  by (rule transpI) (rule dirs_added_trans)

lemma dirs_added_is_dir: "dirs_added w w' \<Longrightarrow> is_dir (fs w) q \<Longrightarrow> is_dir (fs w') q"
  using dirs_added_at [of w w' q] by (auto simp: is_dir_def)

lemma dirs_added_not_file: "dirs_added w w' \<Longrightarrow> \<not> is_file (fs w) q \<Longrightarrow> \<not> is_file (fs w') q"
  using dirs_added_at [of w w' q] by (auto simp: is_file_def)

lemma dirs_added_chain_dirs: "dirs_added w w' \<Longrightarrow> chain_dirs p w \<Longrightarrow> chain_dirs p w'"
  by (auto simp: chain_dirs_def dirs_added_is_dir)

lemma dirs_added_chain_free: "dirs_added w w' \<Longrightarrow> chain_free p w \<Longrightarrow> chain_free p w'"
  by (auto simp: chain_free_def dest: dirs_added_not_file)

lemma dirs_added_call [simp]: "dirs_added w (call c w)"
  by (simp add: dirs_added_def call_def)

lemma fs_call [simp]: "fs (call c w) = fs w"
  by (simp add: call_def)

lemma is_dir_root [simp]: "is_dir f []"
  by (simp add: is_dir_def lookup_def)

lemma exists_root [simp]: "exists f []"
  by (simp add: exists_def lookup_def)

lemma not_file_cases: "\<not> is_file f q \<Longrightarrow> exists f q \<Longrightarrow> is_dir f q"
  by (auto simp: is_file_def exists_def is_dir_def split: option.splits node.splits)

lemma is_dir_exists: "is_dir f q \<Longrightarrow> exists f q"
  by (simp add: is_dir_def exists_def)

lemma walk_None: "walk f qs = None \<longleftrightarrow> (\<forall>q\<in>set qs. is_dir f q)"
  by (induction qs) (auto simp: is_dir_def split: option.splits node.splits)

lemma walk_Some:
  "walk f qs = Some e \<Longrightarrow>
     e = FileNotFoundError \<or> (e = NotADirectoryError \<and> (\<exists>q\<in>set qs. is_file f q))"
  by (induction qs) (auto simp: is_file_def split: option.splits node.splits)

lemma set_ancestors: "set (ancestors p) = {take k p |k. 1 \<le> k \<and> k < length p}"
  by (auto simp: ancestors_def)

lemma ancestors_root [simp]: "ancestors [] = []"
  by (simp add: ancestors_def)

lemma os_mkdir_error_root [simp]: "os_mkdir_error f [] = Some FileExistsError"
  by (simp add: os_mkdir_error_def)

lemma os_mkdir_error_None:
  "os_mkdir_error f p = None \<longleftrightarrow> walk f (ancestors p) = None \<and> \<not> exists f p"
  by (auto simp: os_mkdir_error_def split: option.splits)

lemma lookup_os_mkdir:
  "lookup (os_mkdir f p) q = (if os_mkdir_error f p = None \<and> q = p then Some Dir else lookup f q)"
proof (cases "os_mkdir_error f p")
  case None
  then have "p \<noteq> []" by auto
  moreover from None have "os_mkdir f p = (p, Dir) # f" by (simp add: os_mkdir_def)
  ultimately show ?thesis using None by (simp add: lookup_def)
next
  case (Some e)
  then show ?thesis by (simp add: os_mkdir_def)
qed

lemma is_dir_os_mkdir: "is_dir f q \<Longrightarrow> is_dir (os_mkdir f p) q"
  by (simp add: is_dir_def lookup_os_mkdir)

lemma walk_os_mkdir: "walk f qs = None \<Longrightarrow> walk (os_mkdir f p) qs = None"
  by (simp add: walk_None is_dir_os_mkdir)

lemma dirs_added_os_mkdir: "dirs_added w (call c (w\<lparr>fs := os_mkdir (fs w) p\<rparr>))"
  by (auto simp: dirs_added_def lookup_os_mkdir os_mkdir_error_None exists_def)

lemma chain_dirs_walk: "chain_dirs p w \<Longrightarrow> walk (fs w) (ancestors p) = None"
  by (auto simp: walk_None set_ancestors chain_dirs_def)

lemma chain_free_walk: "chain_free p w \<Longrightarrow> walk (fs w) (ancestors p) \<noteq> Some NotADirectoryError"
proof
  assume a: "chain_free p w" and "walk (fs w) (ancestors p) = Some NotADirectoryError"
  then obtain q where "q \<in> set (ancestors p)" "is_file (fs w) q"
    using walk_Some by blast
  with a show False by (auto simp: set_ancestors chain_free_def)
qed

text \<open>The directory and the directories above it, given those above it and the directory.\<close>

lemma chain_dirs_intro:
  "walk (fs w) (ancestors p) = None \<Longrightarrow> is_dir (fs w) p \<Longrightarrow> chain_dirs p w"
  unfolding chain_dirs_def walk_None set_ancestors
proof (intro allI impI)
  fix k assume a: "\<forall>q\<in>{take k p |k. 1 \<le> k \<and> k < length p}. is_dir (fs w) q"
    and b: "is_dir (fs w) p" and k: "k \<le> length p"
  show "is_dir (fs w) (take k p)"
  proof (cases "k = 0 \<or> k = length p")
    case True
    with b show ?thesis by auto
  next
    case False
    with k have "1 \<le> k \<and> k < length p" by simp
    with a show ?thesis by blast
  qed
qed

lemma sound_Done_ensured: "chain_dirs p w \<Longrightarrow> sound dirs_added (ensured p) n w Done"
  by (rule sound.sound_Done) (simp add: ensured_def dirs_added_chain_dirs)

lemma sound_is_dir_check:
  assumes "chain_dirs p w"
  shows "sound dirs_added (ensured p) (Suc n) w
    (Step (call (IsDir p)) (\<lambda>w. if is_dir (fs w) p then Done else Raised e))"
proof (rule sound.sound_Step, intro conjI)
  fix w' assume "dirs_added w w'"
  with assms have c: "chain_dirs p w'" by (simp add: dirs_added_chain_dirs)
  show "dirs_added w' (call (IsDir p) w')" by simp
  from c have "is_dir (fs w') p" by (auto simp: chain_dirs_def dest: spec [of _ "length p"])
  moreover from c have "chain_dirs p (call (IsDir p) w')" by (simp add: chain_dirs_def)
  ultimately show "sound dirs_added (ensured p) n (call (IsDir p) w')
    (if is_dir (fs w') p then Done else Raised e)"
    by (simp add: sound_Done_ensured)
qed

text \<open>The last directory of a chain whose upper part stands: \<^verbatim>\<open>mkdir\<close> without
  \<^verbatim>\<open>parents\<close>.\<close>

lemma sound_mkdir_last:
  assumes up: "walk (fs w) (ancestors p) = None" and free: "\<not> is_file (fs w) p"
  shows "sound dirs_added (ensured p) 2 w (mkdir False True p)"
proof (subst mkdir.simps, unfold numeral_2_eq_2, rule sound.sound_Step, intro conjI)
  fix w' assume r: "dirs_added w w'"
  let ?w = "call (OsMkdir p) (w'\<lparr>fs := os_mkdir (fs w') p\<rparr>)"
  show "dirs_added w' ?w" by (rule dirs_added_os_mkdir)
  from up r have up': "walk (fs w') (ancestors p) = None"
    by (auto simp: walk_None dirs_added_is_dir)
  from free r have free': "\<not> is_file (fs w') p" by (rule dirs_added_not_file [rotated])
  show "sound dirs_added (ensured p) (Suc 0) ?w
    (case os_mkdir_error (fs w') p of None \<Rightarrow> Done
     | Some e \<Rightarrow>
         if e = FileNotFoundError
         then if \<not> False \<or> parent p = p then Raised e
              else seq (mkdir True True (parent p)) (mkdir False True p)
         else if \<not> True then Raised e
              else Step (call (IsDir p)) (\<lambda>w. if is_dir (fs w) p then Done else Raised e))"
  proof (cases "exists (fs w') p")
    case True
    with free' have d: "is_dir (fs w') p" by (simp add: not_file_cases)
    from True up' have e: "os_mkdir_error (fs w') p = Some FileExistsError"
      by (simp add: os_mkdir_error_def)
    then have "fs ?w = fs w'" by (simp add: os_mkdir_def)
    with up' d have "chain_dirs p ?w" by (simp add: chain_dirs_intro)
    then show ?thesis unfolding e by (simp add: sound_is_dir_check)
  next
    case False
    with up' have e: "os_mkdir_error (fs w') p = None" by (simp add: os_mkdir_error_None)
    then have "is_dir (fs ?w) p" by (simp add: is_dir_def lookup_os_mkdir)
    moreover have "walk (fs ?w) (ancestors p) = None"
      using up' by (simp add: walk_os_mkdir)
    ultimately have "chain_dirs p ?w" by (simp add: chain_dirs_intro)
    then show ?thesis unfolding e by (simp add: sound_Done_ensured)
  qed
qed

lemma chain_free_parent:
  assumes "chain_free (q @ [c]) w"
  shows "chain_free q w"
  unfolding chain_free_def
proof (intro allI impI)
  fix k assume k: "k \<le> length q"
  then have "k \<le> length (q @ [c])" by simp
  with assms have "\<not> is_file (fs w) (take k (q @ [c]))"
    unfolding chain_free_def by blast
  with k show "\<not> is_file (fs w) (take k q)" by simp
qed

lemma chain_dirs_ancestors: "chain_dirs q w \<Longrightarrow> walk (fs w) (ancestors (q @ [c])) = None"
  unfolding walk_None set_ancestors chain_dirs_def
  by (auto simp: less_Suc_eq_le)

text \<open>The whole chain: \<^verbatim>\<open>mkdir(parents=True, exist_ok=True)\<close>, whatever other calls
  add directories meanwhile.\<close>

lemma sound_mkdir_parents:
  "chain_free p w \<Longrightarrow> sound dirs_added (ensured p) (mkdir_budget True p) w (mkdir True True p)"
proof (induction p arbitrary: w rule: rev_induct)
  case Nil
  have c: "chain_dirs [] w'" for w' by (simp add: chain_dirs_def)
  have b: "mkdir_budget True [] = Suc (Suc 0)" by (simp add: mkdir_budget_def)
  show ?case
  proof (subst mkdir.simps, unfold b, rule sound.sound_Step, intro conjI)
    fix w' assume "dirs_added w w'"
    let ?w = "call (OsMkdir []) (w'\<lparr>fs := os_mkdir (fs w') []\<rparr>)"
    show "dirs_added w' ?w" by (rule dirs_added_os_mkdir)
    have "sound dirs_added (ensured []) (Suc 0) ?w
      (Step (call (IsDir [])) (\<lambda>w. if is_dir (fs w) [] then Done else Raised FileExistsError))"
      using c by (rule sound_is_dir_check)
    then show "sound dirs_added (ensured []) (Suc 0) ?w
      (case os_mkdir_error (fs w') [] of None \<Rightarrow> Done
       | Some e \<Rightarrow>
           if e = FileNotFoundError
           then if \<not> True \<or> parent [] = [] then Raised e
                else seq (mkdir True True (parent [])) (mkdir False True [])
           else if \<not> True then Raised e
                else Step (call (IsDir [])) (\<lambda>w. if is_dir (fs w) [] then Done else Raised e))"
      by simp
  qed
next
  case (snoc c q)
  let ?p = "q @ [c]"
  have b: "mkdir_budget True ?p = Suc (mkdir_budget True q + 2)" by (simp add: mkdir_budget_def)
  show ?case
  proof (subst mkdir.simps, unfold b, rule sound.sound_Step, intro conjI)
    fix w' assume r: "dirs_added w w'"
    let ?w = "call (OsMkdir ?p) (w'\<lparr>fs := os_mkdir (fs w') ?p\<rparr>)"
    show g: "dirs_added w' ?w" by (rule dirs_added_os_mkdir)
    from snoc.prems r have free': "chain_free ?p w'" by (simp add: dirs_added_chain_free)
    with g have free'': "chain_free ?p ?w" by (rule dirs_added_chain_free)
    show "sound dirs_added (ensured ?p) (mkdir_budget True q + 2) ?w
      (case os_mkdir_error (fs w') ?p of None \<Rightarrow> Done
       | Some e \<Rightarrow>
           if e = FileNotFoundError
           then if \<not> True \<or> parent ?p = ?p then Raised e
                else seq (mkdir True True (parent ?p)) (mkdir False True ?p)
           else if \<not> True then Raised e
                else Step (call (IsDir ?p)) (\<lambda>w. if is_dir (fs w) ?p then Done else Raised e))"
    proof (cases "os_mkdir_error (fs w') ?p")
      case None
      then have "is_dir (fs ?w) ?p" by (simp add: is_dir_def lookup_os_mkdir)
      moreover from None have "walk (fs w') (ancestors ?p) = None"
        by (simp add: os_mkdir_error_None)
      then have "walk (fs ?w) (ancestors ?p) = None"
        by (simp add: walk_os_mkdir)
      ultimately have "chain_dirs ?p ?w" by (simp add: chain_dirs_intro)
      then show ?thesis unfolding None by (simp add: sound_Done_ensured)
    next
      case (Some e)
      then have same: "fs ?w = fs w'" by (simp add: os_mkdir_def)
      show ?thesis
      proof (cases "walk (fs w') (ancestors ?p)")
        case None
        with Some have e: "e = FileExistsError" and ex: "exists (fs w') ?p"
          by (auto simp: os_mkdir_error_def split: if_splits)
        from free' have "\<not> is_file (fs w') ?p"
          by (auto simp: chain_free_def dest: spec [of _ "length ?p"])
        with ex have "is_dir (fs w') ?p" by (simp add: not_file_cases)
        with None same have "chain_dirs ?p ?w" by (simp add: chain_dirs_intro)
        then have "sound dirs_added (ensured ?p) (Suc (mkdir_budget True q + 1)) ?w
          (Step (call (IsDir ?p)) (\<lambda>w. if is_dir (fs w) ?p then Done else Raised e))"
          by (rule sound_is_dir_check)
        then show ?thesis unfolding Some e by simp
      next
        case (Some e')
        with \<open>os_mkdir_error (fs w') ?p = Some e\<close> have "e' = e"
          by (simp add: os_mkdir_error_def)
        with Some walk_Some [OF Some] chain_free_walk [OF free']
        have e: "e = FileNotFoundError" by auto
        from free'' have "chain_free q ?w" by (rule chain_free_parent)
        then have "sound dirs_added (ensured q) (mkdir_budget True q) ?w (mkdir True True q)"
          by (rule snoc.IH)
        moreover have "sound dirs_added (ensured ?p) 2 w'' (mkdir False True ?p)"
          if "dirs_added ?w w''" "ensured q None w''" for w''
        proof (rule sound_mkdir_last)
          from that(2) show "walk (fs w'') (ancestors ?p) = None"
            by (simp add: ensured_def chain_dirs_ancestors)
          from free'' that(1) have "chain_free ?p w''" by (rule dirs_added_chain_free [rotated])
          then show "\<not> is_file (fs w'') ?p"
            by (auto simp: chain_free_def dest: spec [of _ "length ?p"])
        qed
        ultimately have "sound dirs_added (ensured ?p) (mkdir_budget True q + 2) ?w
          (seq (mkdir True True q) (mkdir False True ?p))"
          by (rule sound_seq [OF _ _ _ reflp_dirs_added transp_dirs_added])
            (simp_all add: ensured_def)
        then show ?thesis
          unfolding \<open>os_mkdir_error (fs w') ?p = Some e\<close> e by (simp add: parent_def)
      qed
    qed
  qed
qed

section \<open>Copy tasks\<close>

lemma observed_refl: "observed output w w"
  by (simp add: observed_def)

lemma observed_trans:
  assumes "observed output a b" and "observed output b c"
  shows "observed output a c"
proof -
  from assms(1) obtain ls cs where 1: "logs b = logs a @ ls" "trace b = trace a @ cs"
    "list_all (task_log output) ls" "list_all (task_call output) cs"
    unfolding observed_def by blast
  from assms(2) obtain ls' cs' where 2: "logs c = logs b @ ls'" "trace c = trace b @ cs'"
    "list_all (task_log output) ls'" "list_all (task_call output) cs'"
    unfolding observed_def by blast
  from 1 2 have "logs c = logs a @ (ls @ ls') \<and> trace c = trace a @ (cs @ cs')
    \<and> list_all (task_log output) (ls @ ls') \<and> list_all (task_call output) (cs @ cs')"
    by simp
  then show ?thesis unfolding observed_def by blast
qed

lemma observed_call:
  "task_call output c \<Longrightarrow> observed output w (call c (w\<lparr>fs := f\<rparr>))"
  unfolding observed_def call_def
  by (intro exI [of _ "[]"] exI [of _ "[c]"]) simp

lemma observed_call': "task_call output c \<Longrightarrow> observed output w (call c w)"
  using observed_call [of "output" c w "fs w"] by simp

lemma observed_emit: "task_log output (l, m) \<Longrightarrow> observed output w (emit l m w)"
  unfolding observed_def emit_def
  by (intro exI [of _ "[(l, m)]"] exI [of _ "[]"]) simp

lemma observed_logs: "observed output w w' \<Longrightarrow> x \<in> set (logs w) \<Longrightarrow> x \<in> set (logs w')"
  by (auto simp: observed_def)

lemma observed_trace: "observed output w w' \<Longrightarrow> c \<in> set (trace w) \<Longrightarrow> c \<in> set (trace w')"
  by (auto simp: observed_def)

lemma reflp_observed: "reflp (observed out)"
  by (rule reflpI) (rule observed_refl)

lemma transp_observed: "transp (observed out)"
  by (rule transpI) (rule observed_trans)

lemmas sound_seq_obs = sound_seq [OF _ _ _ reflp_observed transp_observed]
lemmas sound_try_obs = sound_try_except [OF _ _ _ reflp_observed transp_observed]

lemma sound_mkdir_obs:
  "sound (observed out) (\<lambda>r w. True) (mkdir_budget parents p) w (mkdir parents exist_ok p)"
proof (induction parents exist_ok p arbitrary: w rule: mkdir.induct)
  case (1 parents exist_ok p)
  let ?Q = "\<lambda>(r::exn option) (w::world). True"
  define n where "n = mkdir_budget parents p - 1"
  have n: "mkdir_budget parents p = Suc n" "1 \<le> n"
    "parents \<Longrightarrow> p \<noteq> [] \<Longrightarrow> n = mkdir_budget True (parent p) + mkdir_budget False p"
    unfolding n_def by (cases p rule: rev_cases; simp add: mkdir_budget_def parent_def)+
  from n(2) obtain m where m: "n = Suc m" by (cases n) auto
  show ?case
  proof (subst mkdir.simps, unfold n(1), rule sound.sound_Step, intro conjI)
    fix w' assume "observed out w w'"
    let ?w = "call (OsMkdir p) (w'\<lparr>fs := os_mkdir (fs w') p\<rparr>)"
    show "observed out w' ?w" by (simp add: observed_call)
    have fin: "sound (observed out) ?Q n ?w Done"
      and rais: "sound (observed out) ?Q n ?w (Raised e)" for e
      by (auto intro: sound.intros)
    have chk: "sound (observed out) ?Q n ?w
      (Step (call (IsDir p)) (\<lambda>w. if is_dir (fs w) p then Done else Raised e))" for e
      unfolding m by (rule sound.sound_Step) (auto intro: sound.intros simp: observed_call')
    show "sound (observed out) ?Q n ?w
      (case os_mkdir_error (fs w') p of None \<Rightarrow> Done
       | Some e \<Rightarrow>
           if e = FileNotFoundError
           then if \<not> parents \<or> parent p = p then Raised e
                else seq (mkdir True True (parent p)) (mkdir False exist_ok p)
           else if \<not> exist_ok then Raised e
                else Step (call (IsDir p)) (\<lambda>w. if is_dir (fs w) p then Done else Raised e))"
    proof (cases "os_mkdir_error (fs w') p")
      case None
      then show ?thesis using fin by simp
    next
      case (Some e)
      show ?thesis
      proof (cases "e = FileNotFoundError")
        case False
        with Some show ?thesis using rais chk by simp
      next
        case True
        show ?thesis
        proof (cases "\<not> parents \<or> parent p = p")
          case True
          with Some \<open>e = FileNotFoundError\<close> show ?thesis using rais by simp
        next
          case False
          then have pp: "parents" "p \<noteq> []" by (auto simp: parent_def)
          have a: "sound (observed out) ?Q (mkdir_budget True (parent p)) ?w
            (mkdir True True (parent p))"
            using Some True False by (rule "1.IH"(1))
          have b: "sound (observed out) ?Q (mkdir_budget False p) v (mkdir False exist_ok p)"
            for v
            using Some True False by (rule "1.IH"(2))
          have "sound (observed out) ?Q
            (mkdir_budget True (parent p) + mkdir_budget False p) ?w
            (seq (mkdir True True (parent p)) (mkdir False exist_ok p))"
            by (rule sound_seq_obs [OF a b]) simp
          with Some True False pp n(3) show ?thesis by simp
        qed
      qed
    qed
  qed
qed

text \<open>The first call of \<^verbatim>\<open>mkdir\<close> is \<^verbatim>\<open>os.mkdir\<close> on the path itself.\<close>

lemma sound_mkdir_called:
  "sound (observed out) (\<lambda>r w. OsMkdir p \<in> set (trace w)) (mkdir_budget parents p) w
     (mkdir parents exist_ok p)"
proof -
  define n where "n = mkdir_budget parents p - 1"
  have n: "mkdir_budget parents p = Suc n" by (simp add: n_def mkdir_budget_def)
  define eff where "eff = (\<lambda>w::world. call (OsMkdir p) (w\<lparr>fs := os_mkdir (fs w) p\<rparr>))"
  define "next" where "next = (\<lambda>w::world. case os_mkdir_error (fs w) p of None \<Rightarrow> Done
       | Some e \<Rightarrow>
           if e = FileNotFoundError
           then if \<not> parents \<or> parent p = p then Raised e
                else seq (mkdir True True (parent p)) (mkdir False exist_ok p)
           else if \<not> exist_ok then Raised e
                else Step (call (IsDir p)) (\<lambda>w. if is_dir (fs w) p then Done else Raised e))"
  have eq: "mkdir parents exist_ok p = Step eff next"
    unfolding eff_def next_def by (rule mkdir.simps)
  have "sound (observed out) (\<lambda>r w. True) (Suc n) w (Step eff next)"
    using sound_mkdir_obs [of out parents p w exist_ok] by (simp add: n eq)
  then have s2: "observed out w' (eff w')
       \<and> sound (observed out) (\<lambda>r w. True) n (eff w') (next w')"
    if "observed out w w'" for w'
    using that by (auto elim: sound_StepE)
  have "sound (observed out) (\<lambda>r w. OsMkdir p \<in> set (trace w)) (Suc n) w (Step eff next)"
  proof (rule sound.sound_Step, intro conjI)
    fix w' assume r: "observed out w w'"
    with s2 show "observed out w' (eff w')" by blast
    have "OsMkdir p \<in> set (trace (eff w'))" by (simp add: eff_def call_def)
    with s2 [OF r] have "sound (observed out) (\<lambda>r w. True \<and> OsMkdir p \<in> set (trace w)) n
      (eff w') (next w')"
      by (intro sound_frame) (auto intro: observed_trace)
    then show "sound (observed out) (\<lambda>r w. OsMkdir p \<in> set (trace w)) n (eff w') (next w')"
      by simp
  qed
  with eq n show ?thesis by simp
qed

lemma sound_copy_file:
  "sound (observed out) (outcome path out) (copy_file_budget path out) w (copy_file path out)"
proof -
  let ?tf = "target_folder path out" and ?tp = "target_path path out"
  let ?called = "\<lambda>w. OsMkdir ?tf \<in> set (trace w)"
  let ?body = "\<lambda>(r::exn option) w. ?called w
    \<and> (r = None \<longrightarrow> (INFO, Copied path ?tp) \<in> set (logs w))"
  have cf: "copy_file path out =
    try_except (seq (mkdir True True ?tf)
        (seq (aioshutil_copy path ?tp) (logging INFO (Copied path ?tp))))
      (\<lambda>e. logging ERROR (ErrorCopying path e))"
    by (simp add: copy_file_def Let_def target_folder_def target_path_def classify_def)
  have lg: "sound (observed out) ?body 1 v (logging INFO (Copied path ?tp))" if "?called v" for v
    unfolding logging_def One_nat_def
  proof (rule sound.sound_Step, intro conjI)
    fix v' assume r: "observed out v v'"
    show g: "observed out v' (emit INFO (Copied path ?tp) v')" by (simp add: observed_emit)
    from r that have "?called v'" by (rule observed_trace)
    then have "?called (emit INFO (Copied path ?tp) v')" by (simp add: emit_def)
    moreover have "(INFO, Copied path ?tp) \<in> set (logs (emit INFO (Copied path ?tp) v'))"
      by (simp add: emit_def)
    ultimately show "sound (observed out) ?body 0 (emit INFO (Copied path ?tp) v') Done"
      by (auto intro!: sound.sound_Done intro: observed_trace observed_logs)
  qed
  have cp: "sound (observed out) (\<lambda>r w. ?called w) 1 v (aioshutil_copy path ?tp)"
    if "?called v" for v
    unfolding aioshutil_copy_def One_nat_def
  proof (rule sound.sound_Step, intro conjI)
    fix v' assume r: "observed out v v'"
    let ?v = "call (ShutilCopy path ?tp) (v'\<lparr>fs := shutil_copy (fs v') path ?tp\<rparr>)"
    show "observed out v' ?v" by (simp add: observed_call)
    from r that have "?called v'" by (rule observed_trace)
    then have "?called ?v" by (simp add: call_def)
    then show "sound (observed out) (\<lambda>r w. ?called w) 0 ?v
      (case shutil_copy_result (fs v') path ?tp of Inl e \<Rightarrow> Raised e | Inr c \<Rightarrow> Done)"
      by (auto intro!: sound.intros intro: observed_trace split: sum.splits)
  qed
  have rest: "sound (observed out) ?body (1 + 1) v
    (seq (aioshutil_copy path ?tp) (logging INFO (Copied path ?tp)))" if "?called v" for v
    by (rule sound_seq_obs [OF cp [OF that] lg]) simp_all
  have body: "sound (observed out) ?body (mkdir_budget True ?tf + (1 + 1)) w
    (seq (mkdir True True ?tf)
      (seq (aioshutil_copy path ?tp) (logging INFO (Copied path ?tp))))"
    by (rule sound_seq_obs [OF sound_mkdir_called rest]) simp_all
  have hd: "sound (observed out) (outcome path out) 1 v (logging ERROR (ErrorCopying path e))"
    if "?called v" for v e
    unfolding logging_def One_nat_def
  proof (rule sound.sound_Step, intro conjI)
    fix v' assume r: "observed out v v'"
    let ?v = "emit ERROR (ErrorCopying path e) v'"
    show "observed out v' ?v" by (simp add: observed_emit)
    from r that have "?called v'" by (rule observed_trace)
    then have "attempted path out ?v" by (auto simp: attempted_def emit_def)
    then have "attempted path out v''" if "observed out ?v v''" for v''
      using that unfolding attempted_def by (blast intro: observed_trace observed_logs)
    then show "sound (observed out) (outcome path out) 0 ?v Done"
      by (auto intro!: sound.sound_Done simp: outcome_def)
  qed
  have "sound (observed out) (outcome path out) (mkdir_budget True ?tf + (1 + 1) + 1) w
    (copy_file path out)"
    unfolding cf
    by (rule sound_try_obs [OF body hd]) (auto simp: outcome_def attempted_def)
  then show ?thesis by (rule sound_budget) (simp add: copy_file_budget_def mkdir_budget_def)
qed

lemma collect_eq:
  "collect items output tasks w =
     (tasks @ map (\<lambda>p. copy_file p output) (filter (is_file (fs w)) items),
      w\<lparr>trace := trace w @ map IsFile items\<rparr>)"
  by (induction items arbitrary: tasks w) (simp_all add: Let_def call_def)

lemma read_folder_missing:
  "\<not> exists (fs w) source \<Longrightarrow>
   read_folder sched source output w =
     (Some (Inr ()), emit ERROR (SourceMissing source) (call (Exists source) w))"
  by (simp add: read_folder_def Let_def)

lemma read_folder_walk:
  "exists (fs w) source \<Longrightarrow>
   read_folder sched source output w =
     (if discovered w source \<noteq> []
      then gather sched (map (\<lambda>p. copy_file p output) (discovered w source)) (walked w source)
      else (Some (Inr ()), emit WARNING (NoFilesFound source) (walked w source)))"
  by (simp add: read_folder_def Let_def collect_eq discovered_def walked_def call_def)

lemma gather_copy_files:
  "observed out w (snd (gather sched (map (\<lambda>p. copy_file p out) files) w))
   \<and> (\<forall>e. fst (gather sched (map (\<lambda>p. copy_file p out) files) w) \<noteq> Some (Inl e))
   \<and> (fst (gather sched (map (\<lambda>p. copy_file p out) files) w) = Some (Inr ()) \<longrightarrow>
        (\<forall>i<length files. attempted (files ! i) out
           (snd (gather sched (map (\<lambda>p. copy_file p out) files) w))))
   \<and> ((\<forall>i<length files. copy_file_budget (files ! i) out \<le> count_list sched i) \<longrightarrow>
        fst (gather sched (map (\<lambda>p. copy_file p out) files) w) = Some (Inr ()))"
proof -
  let ?ts = "map (\<lambda>p. copy_file p out) files"
  have "\<forall>i<length ?ts. sound (observed out) (outcome (files ! i) out)
    (copy_file_budget (files ! i) out) w (?ts ! i)"
    by (simp add: sound_copy_file)
  from gather_sound [where R = "observed out" and Q = "\<lambda>i. outcome (files ! i) out"
      and b = "\<lambda>i. copy_file_budget (files ! i) out" and sched = sched,
      OF reflp_observed transp_observed _ this]
  show ?thesis by (simp add: outcome_def)
qed

lemma sound_mkdir_result:
  "sound dirs_added (\<lambda>r w. r = None \<longrightarrow> is_dir (fs w) p) (mkdir_budget parents p) w
     (mkdir parents exist_ok p)"
proof (induction parents exist_ok p arbitrary: w rule: mkdir.induct)
  case (1 parents exist_ok p)
  let ?Q = "\<lambda>(r::exn option) (w::world). r = None \<longrightarrow> is_dir (fs w) p"
  define n where "n = mkdir_budget parents p - 1"
  have n: "mkdir_budget parents p = Suc n" "1 \<le> n"
    "parents \<Longrightarrow> p \<noteq> [] \<Longrightarrow> n = mkdir_budget True (parent p) + mkdir_budget False p"
    unfolding n_def by (cases p rule: rev_cases; simp add: mkdir_budget_def parent_def)+
  from n(2) obtain m where m: "n = Suc m" by (cases n) auto
  show ?case
  proof (subst mkdir.simps, unfold n(1), rule sound.sound_Step, intro conjI)
    fix w' assume "dirs_added w w'"
    let ?w = "call (OsMkdir p) (w'\<lparr>fs := os_mkdir (fs w') p\<rparr>)"
    show "dirs_added w' ?w" by (rule dirs_added_os_mkdir)
    have rais: "sound dirs_added ?Q k v (Raised e)" for e k v
      by (rule sound.sound_Raised) simp
    have fin: "sound dirs_added ?Q k v Done" if "is_dir (fs v) p" for k v
    proof (rule sound.sound_Done, rule impI)
      fix v' assume "dirs_added v v'"
      then show "is_dir (fs v') p" using that by (rule dirs_added_is_dir)
    qed
    have chk: "sound dirs_added ?Q n ?w
      (Step (call (IsDir p)) (\<lambda>w. if is_dir (fs w) p then Done else Raised e))" for e
      unfolding m
    proof (rule sound.sound_Step, intro conjI)
      fix v assume "dirs_added ?w v"
      show "dirs_added v (call (IsDir p) v)" by simp
      show "sound dirs_added ?Q m (call (IsDir p) v) (if is_dir (fs v) p then Done else Raised e)"
        by (simp add: fin rais)
    qed
    show "sound dirs_added ?Q n ?w
      (case os_mkdir_error (fs w') p of None \<Rightarrow> Done
       | Some e \<Rightarrow>
           if e = FileNotFoundError
           then if \<not> parents \<or> parent p = p then Raised e
                else seq (mkdir True True (parent p)) (mkdir False exist_ok p)
           else if \<not> exist_ok then Raised e
                else Step (call (IsDir p)) (\<lambda>w. if is_dir (fs w) p then Done else Raised e))"
    proof (cases "os_mkdir_error (fs w') p")
      case None
      then have "is_dir (fs ?w) p" by (simp add: is_dir_def lookup_os_mkdir)
      with None show ?thesis by (simp add: fin)
    next
      case (Some e)
      show ?thesis
      proof (cases "e = FileNotFoundError")
        case False
        with Some show ?thesis using rais chk by simp
      next
        case True
        show ?thesis
        proof (cases "\<not> parents \<or> parent p = p")
          case True
          with Some \<open>e = FileNotFoundError\<close> show ?thesis using rais by simp
        next
          case False
          then have pp: "parents" "p \<noteq> []" by (auto simp: parent_def)
          have a: "sound dirs_added (\<lambda>r w. r = None \<longrightarrow> is_dir (fs w) (parent p))
            (mkdir_budget True (parent p)) ?w (mkdir True True (parent p))"
            using Some True False by (rule "1.IH"(1))
          have b: "sound dirs_added ?Q (mkdir_budget False p) v (mkdir False exist_ok p)"
            for v
            using Some True False by (rule "1.IH"(2))
          have "sound dirs_added ?Q
            (mkdir_budget True (parent p) + mkdir_budget False p) ?w
            (seq (mkdir True True (parent p)) (mkdir False exist_ok p))"
            by (rule sound_seq [OF a b _ reflp_dirs_added transp_dirs_added]) simp
          with Some True False pp n(3) show ?thesis by simp
        qed
      qed
    qed
  qed
qed

lemmas sound_await_dirs = sound_await [OF _ reflp_dirs_added transp_dirs_added]
lemmas sound_await_obs = sound_await [OF _ reflp_observed transp_observed]

lemma await_mkdir_existing:
  assumes "chain_dirs t w"
  shows "await (mkdir True True t) w = (Inr (), w\<lparr>trace := trace w @ [OsMkdir t, IsDir t]\<rparr>)"
proof -
  from assms have "walk (fs w) (ancestors t) = None" by (rule chain_dirs_walk)
  moreover from assms have d: "is_dir (fs w) t"
    by (auto simp: chain_dirs_def dest: spec [of _ "length t"])
  ultimately have e: "os_mkdir_error (fs w) t = Some FileExistsError"
    by (simp add: os_mkdir_error_def is_dir_exists)
  then have "os_mkdir (fs w) t = fs w" by (simp add: os_mkdir_def)
  with e d show ?thesis
    by (subst mkdir.simps) (simp add: call_def)
qed

lemma await_mkdir_chain:
  assumes "chain_free t w"
  shows "fst (await (mkdir True True t) w) = Inr ()
    \<and> chain_dirs t (snd (await (mkdir True True t) w))
    \<and> dirs_added w (snd (await (mkdir True True t) w))"
proof -
  from assms have "sound dirs_added (ensured t) (mkdir_budget True t) w (mkdir True True t)"
    by (rule sound_mkdir_parents)
  from sound_await_dirs [OF this]
  show ?thesis by (auto simp: ensured_def split: sum.splits)
qed

lemma await_mkdir_success:
  assumes "await (mkdir True True p) w = (Inr u, w1)"
  shows "is_dir (fs w1) p \<and> dirs_added w w1"
  using sound_await_dirs [OF sound_mkdir_result [of p True w True]] assms by simp

lemma await_copy_file: "fst (await (copy_file path out) w) = Inr ()"
  using sound_await_obs [OF sound_copy_file [of out path w]]
  by (auto simp: outcome_def split: sum.splits)

lemma gather_mkdirs:
  assumes "\<forall>t\<in>set targets. chain_free t w"
  shows "dirs_added w (snd (gather sched (map (mkdir True True) targets) w))
   \<and> (\<forall>e. fst (gather sched (map (mkdir True True) targets) w) \<noteq> Some (Inl e))
   \<and> (fst (gather sched (map (mkdir True True) targets) w) = Some (Inr ()) \<longrightarrow>
        (\<forall>i<length targets. chain_dirs (targets ! i)
           (snd (gather sched (map (mkdir True True) targets) w))))
   \<and> ((\<forall>i<length targets. mkdir_budget True (targets ! i) \<le> count_list sched i) \<longrightarrow>
        fst (gather sched (map (mkdir True True) targets) w) = Some (Inr ()))"
proof -
  let ?ts = "map (mkdir True True) targets"
  have "\<forall>i<length ?ts. sound dirs_added (ensured (targets ! i))
    (mkdir_budget True (targets ! i)) w (?ts ! i)"
    using assms by (simp add: sound_mkdir_parents)
  from gather_sound [where R = dirs_added and Q = "\<lambda>i. ensured (targets ! i)"
      and b = "\<lambda>i. mkdir_budget True (targets ! i)" and sched = sched,
      OF reflp_dirs_added transp_dirs_added _ this]
  show ?thesis by (simp add: ensured_def)
qed

section \<open>The claims about a run\<close>

text \<open>
  \<^bold>\<open>C3.\<close> Ensuring a directory is \<^verbatim>\<open>mkdir(parents=True, exist_ok=True)\<close>. Let any
  number of such calls, for any target directories (the same one several times, or
  different ones), run concurrently under any schedule, from a state where no regular file
  stands at a target or above it. Then no call raises an exception; when every call is
  scheduled often enough all of them return; once they have returned every target and
  every directory above it exists; and the file system has changed by added directories
  only. Each call alone succeeds as well, and calling it again on its result succeeds with
  two calls (\<^verbatim>\<open>os.mkdir\<close>, which finds the directory, and \<^verbatim>\<open>is_dir\<close>) and leaves
  the file system as it is.
\<close>

theorem mkdir_exist_ok_concurrent:
  assumes "\<forall>t\<in>set targets. \<forall>k\<le>length t. \<not> is_file (fs w) (take k t)"
  shows "(let r = gather sched (map (mkdir True True) targets) w in
      (\<forall>e. fst r \<noteq> Some (Inl e))
      \<and> ((\<forall>i<length targets. 3 * length (targets ! i) + 2 \<le> count_list sched i)
           \<longrightarrow> fst r = Some (Inr ()))
      \<and> (fst r = Some (Inr ())
           \<longrightarrow> (\<forall>t\<in>set targets. \<forall>k\<le>length t. is_dir (fs (snd r)) (take k t)))
      \<and> dirs_added w (snd r))
    \<and> (\<forall>t\<in>set targets.
        fst (await (mkdir True True t) w) = Inr ()
        \<and> (\<forall>k\<le>length t. is_dir (fs (snd (await (mkdir True True t) w))) (take k t))
        \<and> await (mkdir True True t) (snd (await (mkdir True True t) w)) =
            (Inr (), (snd (await (mkdir True True t) w))
               \<lparr>trace := trace (snd (await (mkdir True True t) w)) @ [OsMkdir t, IsDir t]\<rparr>))"
proof -
  from assms have free: "\<forall>t\<in>set targets. chain_free t w" by (simp add: chain_free_def)
  note g = gather_mkdirs [OF free, of sched]
  have "\<forall>t\<in>set targets. \<forall>k\<le>length t.
      is_dir (fs (snd (gather sched (map (mkdir True True) targets) w))) (take k t)"
    if "fst (gather sched (map (mkdir True True) targets) w) = Some (Inr ())"
  proof
    fix t assume "t \<in> set targets"
    then obtain i where "i < length targets" "targets ! i = t" by (auto simp: in_set_conv_nth)
    with g that have "chain_dirs t (snd (gather sched (map (mkdir True True) targets) w))"
      by blast
    then show "\<forall>k\<le>length t.
      is_dir (fs (snd (gather sched (map (mkdir True True) targets) w))) (take k t)"
      by (simp add: chain_dirs_def)
  qed
  moreover have "fst (await (mkdir True True t) w) = Inr ()
        \<and> (\<forall>k\<le>length t. is_dir (fs (snd (await (mkdir True True t) w))) (take k t))
        \<and> await (mkdir True True t) (snd (await (mkdir True True t) w)) =
            (Inr (), (snd (await (mkdir True True t) w))
               \<lparr>trace := trace (snd (await (mkdir True True t) w)) @ [OsMkdir t, IsDir t]\<rparr>)"
    if "t \<in> set targets" for t
  proof -
    from free that have "chain_free t w" by blast
    from await_mkdir_chain [OF this]
    have a: "fst (await (mkdir True True t) w) = Inr ()"
      and b: "chain_dirs t (snd (await (mkdir True True t) w))" by simp_all
    from b have "\<forall>k\<le>length t. is_dir (fs (snd (await (mkdir True True t) w))) (take k t)"
      by (simp add: chain_dirs_def)
    with a await_mkdir_existing [OF b] show ?thesis by simp
  qed
  ultimately show ?thesis using g unfolding Let_def mkdir_budget_def by simp
qed

theorem mkdir_exist_ok_concurrent_witness:
  "fst (gather (concat (replicate 11 [0, 1, 2]))
      (map (mkdir True True) [[''out'', ''txt''], [''out'', ''txt''], [''out'', ''a'', ''b'']])
      \<lparr>fs = [([''out''], Dir)], logs = [], trace = []\<rparr>) = Some (Inr ())
   \<and> fs (snd (gather (concat (replicate 11 [0, 1, 2]))
      (map (mkdir True True) [[''out'', ''txt''], [''out'', ''txt''], [''out'', ''a'', ''b'']])
      \<lparr>fs = [([''out''], Dir)], logs = [], trace = []\<rparr>)) =
      [([''out'', ''a'', ''b''], Dir), ([''out'', ''a''], Dir), ([''out'', ''txt''], Dir), ([''out''], Dir)]
   \<and> is_dir (fs (snd (gather (concat (replicate 11 [0, 1, 2]))
      (map (mkdir True True) [[''out'', ''txt''], [''out'', ''txt''], [''out'', ''a'', ''b'']])
      \<lparr>fs = [([''out''], Dir)], logs = [], trace = []\<rparr>))) [''out'', ''txt'']
   \<and> await (mkdir True True [''out'', ''txt''])
        (snd (await (mkdir True True [''out'', ''txt''])
           \<lparr>fs = [([''out''], Dir)], logs = [], trace = []\<rparr>)) =
      (Inr (), \<lparr>fs = [([''out'', ''txt''], Dir), ([''out''], Dir)], logs = [],
         trace = [OsMkdir [''out'', ''txt''], OsMkdir [''out'', ''txt''], IsDir [''out'', ''txt'']]\<rparr>)"
proof -
  let ?w = "\<lparr>fs = [([''out''], Dir)], logs = [], trace = []\<rparr>"
  let ?targets = "[[''out'', ''txt''], [''out'', ''txt''], [''out'', ''a'', ''b'']]"
  let ?sched = "concat (replicate 11 [0, 1, 2 :: nat])"
  let ?r = "gather ?sched (map (mkdir True True) ?targets) ?w"
  let ?w1 = "snd (await (mkdir True True [''out'', ''txt'']) ?w)"
  have nofile: "\<forall>t\<in>set ?targets. \<forall>k\<le>length t. \<not> is_file (fs ?w) (take k t)"
    by (simp add: is_file_def lookup_def)
  have fair: "\<forall>i<length ?targets. 3 * length (?targets ! i) + 2 \<le> count_list ?sched i"
  proof (intro allI impI)
    fix i assume "i < length ?targets"
    then consider "i = 0" | "i = 1" | "i = 2" by fastforce
    then show "3 * length (?targets ! i) + 2 \<le> count_list ?sched i"
      by cases (simp_all, code_simp+)
  qed
  note t = mkdir_exist_ok_concurrent [OF nofile, of ?sched, unfolded Let_def]
  from t fair have a: "fst ?r = Some (Inr ())" by blast
  with t have "\<forall>t\<in>set ?targets. \<forall>k\<le>length t. is_dir (fs (snd ?r)) (take k t)" by blast
  then have "\<forall>k\<le>length [''out'', ''txt'']. is_dir (fs (snd ?r)) (take k [''out'', ''txt''])"
    by simp
  from this [rule_format, of 2] have c: "is_dir (fs (snd ?r)) [''out'', ''txt'']" by simp
  have fsv: "fs (snd ?r) =
      [([''out'', ''a'', ''b''], Dir), ([''out'', ''a''], Dir), ([''out'', ''txt''], Dir), ([''out''], Dir)]"
    by code_simp
  have first: "?w1 = \<lparr>fs = [([''out'', ''txt''], Dir), ([''out''], Dir)], logs = [],
         trace = [OsMkdir [''out'', ''txt'']]\<rparr>"
    by code_simp
  from t have "\<forall>t\<in>set ?targets.
      await (mkdir True True t) (snd (await (mkdir True True t) ?w)) =
        (Inr (), (snd (await (mkdir True True t) ?w))
           \<lparr>trace := trace (snd (await (mkdir True True t) ?w)) @ [OsMkdir t, IsDir t]\<rparr>)"
    by blast
  then have "await (mkdir True True [''out'', ''txt'']) ?w1 =
        (Inr (), ?w1\<lparr>trace := trace ?w1 @ [OsMkdir [''out'', ''txt''], IsDir [''out'', ''txt'']]\<rparr>)"
    by simp
  then have d: "await (mkdir True True [''out'', ''txt'']) ?w1 =
      (Inr (), \<lparr>fs = [([''out'', ''txt''], Dir), ([''out''], Dir)], logs = [],
         trace = [OsMkdir [''out'', ''txt''], OsMkdir [''out'', ''txt''], IsDir [''out'', ''txt'']]\<rparr>)"
    unfolding first by simp
  from a fsv c d show ?thesis by (intro conjI)
qed

lemma await_seq:
  "await (seq t1 t2) w =
     (case await t1 w of (Inl e, w1) \<Rightarrow> (Inl e, w1) | (Inr u, w1) \<Rightarrow> await t2 w1)"
  by (induction t1 arbitrary: w) simp_all

lemma await_try_except:
  "await (try_except t h) w =
     (case await t w of (Inl e, w1) \<Rightarrow> await (h e) w1 | (Inr u, w1) \<Rightarrow> (Inr u, w1))"
  by (induction t arbitrary: w) simp_all

lemma copy_file_eq:
  "copy_file path out =
     try_except
       (seq (mkdir True True (target_folder path out))
          (seq (aioshutil_copy path (target_path path out))
             (logging INFO (Copied path (target_path path out)))))
       (\<lambda>e. logging ERROR (ErrorCopying path e))"
  by (simp add: copy_file_def Let_def target_folder_def target_path_def classify_def)

lemma await_copy_file_mkdir_failed:
  assumes "await (mkdir True True (target_folder path out)) w = (Inl e, w1)"
  shows "await (copy_file path out) w = (Inr (), emit ERROR (ErrorCopying path e) w1)"
  using assms by (simp add: copy_file_eq await_try_except await_seq logging_def)

lemma await_copy_file_copy_failed:
  assumes "await (mkdir True True (target_folder path out)) w = (Inr u, w1)"
    and "shutil_copy_result (fs w1) path (target_path path out) = Inl e"
  shows "await (copy_file path out) w =
    (Inr (), emit ERROR (ErrorCopying path e) (call (ShutilCopy path (target_path path out)) w1))"
  using assms
  by (simp add: copy_file_eq await_try_except await_seq logging_def aioshutil_copy_def
      shutil_copy_def)

lemma await_copy_file_copied:
  assumes "await (mkdir True True (target_folder path out)) w = (Inr u, w1)"
    and "shutil_copy_result (fs w1) path (target_path path out) = Inr c"
  shows "await (copy_file path out) w =
    (Inr (), emit INFO (Copied path (target_path path out))
       (call (ShutilCopy path (target_path path out))
          (w1\<lparr>fs := (copy_target (fs w1) path (target_path path out), File c) # fs w1\<rparr>)))"
  using assms
  by (simp add: copy_file_eq await_try_except await_seq logging_def aioshutil_copy_def
      shutil_copy_def)

lemma read_folder_attempts:
  "(\<forall>e. fst (read_folder sched source output w) \<noteq> Some (Inl e))
   \<and> (fst (read_folder sched source output w) = Some (Inr ()) \<longrightarrow>
        (\<forall>path\<in>set (discovered w source).
           attempted path output (snd (read_folder sched source output w))))
   \<and> ((\<forall>i<length (discovered w source).
         copy_file_budget (discovered w source ! i) output \<le> count_list sched i) \<longrightarrow>
        fst (read_folder sched source output w) = Some (Inr ()))"
proof (cases "exists (fs w) source")
  case False
  then have "discovered w source = []"
    by (auto simp: discovered_def rglob_def dest: is_dir_exists)
  with False show ?thesis by (simp add: read_folder_missing)
next
  case True
  show ?thesis
  proof (cases "discovered w source = []")
    case True
    with \<open>exists (fs w) source\<close> show ?thesis by (simp add: read_folder_walk)
  next
    case False
    let ?g = "gather sched (map (\<lambda>p. copy_file p output) (discovered w source)) (walked w source)"
    from False \<open>exists (fs w) source\<close> have r: "read_folder sched source output w = ?g"
      by (simp add: read_folder_walk)
    note g = gather_copy_files [of "output" "walked w source" sched "discovered w source"]
    have "\<forall>path\<in>set (discovered w source). attempted path output (snd ?g)"
      if "fst ?g = Some (Inr ())"
    proof
      fix path assume "path \<in> set (discovered w source)"
      then obtain i where "i < length (discovered w source)" "discovered w source ! i = path"
        by (auto simp: in_set_conv_nth)
      with g that show "attempted path output (snd ?g)" by blast
    qed
    with g show ?thesis unfolding r by blast
  qed
qed

text \<open>
  \<^bold>\<open>C4.\<close> \<^verbatim>\<open>read_folder\<close> never ends with an exception, whatever the schedule and
  whatever fails in the copy tasks. When every task is scheduled often enough it returns,
  and then for every regular file it found the directory of the file has been asked for and
  the outcome of its copy has been logged: copied, or the error. A copy task alone never
  raises: when creating the directory fails, or when the copy fails, the exception becomes
  an \<^verbatim>\<open>ERROR\<close> record for that file and the task ends normally.
\<close>

theorem per_file_errors_contained:
  "(\<forall>e. fst (read_folder sched source output w) \<noteq> Some (Inl e))
   \<and> ((\<forall>i<length (discovered w source).
         3 * length (target_folder (discovered w source ! i) output) + 5 \<le> count_list sched i) \<longrightarrow>
        fst (read_folder sched source output w) = Some (Inr ())
        \<and> (\<forall>path\<in>set (discovered w source).
             OsMkdir (target_folder path output)
               \<in> set (trace (snd (read_folder sched source output w)))
             \<and> ((INFO, Copied path (target_path path output))
                   \<in> set (logs (snd (read_folder sched source output w)))
                 \<or> (\<exists>e. (ERROR, ErrorCopying path e)
                   \<in> set (logs (snd (read_folder sched source output w)))))))
   \<and> fst (await (copy_file path output) v) = Inr ()
   \<and> (\<forall>e v1. await (mkdir True True (target_folder path output)) v = (Inl e, v1) \<longrightarrow>
        await (copy_file path output) v = (Inr (), emit ERROR (ErrorCopying path e) v1))
   \<and> (\<forall>e v1. await (mkdir True True (target_folder path output)) v = (Inr (), v1)
          \<and> shutil_copy_result (fs v1) path (target_path path output) = Inl e \<longrightarrow>
        await (copy_file path output) v =
          (Inr (), emit ERROR (ErrorCopying path e)
             (call (ShutilCopy path (target_path path output)) v1)))"
proof -
  note a = read_folder_attempts [of sched source "output" w]
  have "fst (read_folder sched source output w) = Some (Inr ())
        \<and> (\<forall>path\<in>set (discovered w source).
             OsMkdir (target_folder path output)
               \<in> set (trace (snd (read_folder sched source output w)))
             \<and> ((INFO, Copied path (target_path path output))
                   \<in> set (logs (snd (read_folder sched source output w)))
                 \<or> (\<exists>e. (ERROR, ErrorCopying path e)
                   \<in> set (logs (snd (read_folder sched source output w))))))"
    if "\<forall>i<length (discovered w source).
         3 * length (target_folder (discovered w source ! i) output) + 5 \<le> count_list sched i"
  proof -
    from that a have r: "fst (read_folder sched source output w) = Some (Inr ())"
      by (simp add: copy_file_budget_def)
    with a have "\<forall>path\<in>set (discovered w source).
      attempted path output (snd (read_folder sched source output w))" by blast
    with r show ?thesis by (simp add: attempted_def)
  qed
  with a show ?thesis
    by (auto simp: await_copy_file await_copy_file_mkdir_failed await_copy_file_copy_failed)
qed

theorem per_file_errors_contained_witness:
  "fst (read_folder (concat (replicate 11 [0, 1])) [''src''] [''out''] busy_world) = Some (Inr ())
   \<and> logs (snd (read_folder (concat (replicate 11 [0, 1])) [''src''] [''out''] busy_world)) =
       [(ERROR, ErrorCopying [''src'', ''a.txt''] FileExistsError),
        (INFO, Copied [''src'', ''b''] [''out'', ''no_extension'', ''b''])]
   \<and> await (copy_file [''src'', ''a.txt''] [''out'']) busy_world =
       (Inr (), emit ERROR (ErrorCopying [''src'', ''a.txt''] FileExistsError)
          (busy_world\<lparr>trace := [OsMkdir [''out'', ''txt''], IsDir [''out'', ''txt'']]\<rparr>))
   \<and> await (copy_file [''src'', ''missing''] [''out'']) busy_world =
       (Inr (), emit ERROR (ErrorCopying [''src'', ''missing''] FileNotFoundError)
          (call (ShutilCopy [''src'', ''missing''] [''out'', ''no_extension'', ''missing''])
             (busy_world\<lparr>fs := ([''out'', ''no_extension''], Dir) # fs busy_world,
                trace := [OsMkdir [''out'', ''no_extension'']]\<rparr>)))"
proof -
  let ?sched = "concat (replicate 11 [0, 1 :: nat])"
  let ?r = "read_folder ?sched [''src''] [''out''] busy_world"
  have d: "discovered busy_world [''src''] = [[''src'', ''a.txt''], [''src'', ''b'']]"
    by code_simp
  have fair: "\<forall>i<length (discovered busy_world [''src'']).
      3 * length (target_folder (discovered busy_world [''src''] ! i) [''out'']) + 5
        \<le> count_list ?sched i"
    unfolding d
  proof (intro allI impI)
    fix i assume "i < length [[''src'', ''a.txt''], [''src'', ''b'']]"
    then consider "i = 0" | "i = 1" by fastforce
    then show "3 * length (target_folder ([[''src'', ''a.txt''], [''src'', ''b'']] ! i) [''out'']) + 5
        \<le> count_list ?sched i"
      by cases (simp_all, code_simp+)
  qed
  have m1: "await (mkdir True True (target_folder [''src'', ''a.txt''] [''out''])) busy_world =
      (Inl FileExistsError, busy_world\<lparr>trace := [OsMkdir [''out'', ''txt''], IsDir [''out'', ''txt'']]\<rparr>)"
    by code_simp
  have m2: "await (mkdir True True (target_folder [''src'', ''missing''] [''out''])) busy_world =
      (Inr (), busy_world\<lparr>fs := ([''out'', ''no_extension''], Dir) # fs busy_world,
                trace := [OsMkdir [''out'', ''no_extension'']]\<rparr>)"
    by code_simp
  have c2: "shutil_copy_result
      (fs (busy_world\<lparr>fs := ([''out'', ''no_extension''], Dir) # fs busy_world,
                trace := [OsMkdir [''out'', ''no_extension'']]\<rparr>))
      [''src'', ''missing''] (target_path [''src'', ''missing''] [''out'']) = Inl FileNotFoundError"
    by code_simp
  have tp: "target_path [''src'', ''missing''] [''out''] = [''out'', ''no_extension'', ''missing'']"
    by code_simp
  have lg: "logs (snd ?r) =
       [(ERROR, ErrorCopying [''src'', ''a.txt''] FileExistsError),
        (INFO, Copied [''src'', ''b''] [''out'', ''no_extension'', ''b''])]"
    by code_simp
  note t1 = per_file_errors_contained [of ?sched "[''src'']" "[''out'']" busy_world
      "[''src'', ''a.txt'']" busy_world]
  note t2 = per_file_errors_contained [of ?sched "[''src'']" "[''out'']" busy_world
      "[''src'', ''missing'']" busy_world]
  from t1 fair have a: "fst ?r = Some (Inr ())" by blast
  from t1 m1 have b: "await (copy_file [''src'', ''a.txt''] [''out'']) busy_world =
       (Inr (), emit ERROR (ErrorCopying [''src'', ''a.txt''] FileExistsError)
          (busy_world\<lparr>trace := [OsMkdir [''out'', ''txt''], IsDir [''out'', ''txt'']]\<rparr>))"
    by blast
  from t2 m2 c2 have c: "await (copy_file [''src'', ''missing''] [''out'']) busy_world =
       (Inr (), emit ERROR (ErrorCopying [''src'', ''missing''] FileNotFoundError)
          (call (ShutilCopy [''src'', ''missing''] (target_path [''src'', ''missing''] [''out'']))
             (busy_world\<lparr>fs := ([''out'', ''no_extension''], Dir) # fs busy_world,
                trace := [OsMkdir [''out'', ''no_extension'']]\<rparr>)))"
    by blast
  from a lg b c [unfolded tp] show ?thesis by (intro conjI)
qed

lemma task_not_walker: "task_call out c \<Longrightarrow> \<not> walker_call c"
  by (cases c) simp_all

lemma read_folder_trace:
  "\<exists>cs. trace (snd (read_folder sched source output w)) =
       trace w @ Exists source
         # (if exists (fs w) source then Rglob source # map IsFile (rglob (fs w) source) else [])
         @ cs
     \<and> list_all (task_call output) cs"
proof (cases "exists (fs w) source")
  case False
  then have "trace (snd (read_folder sched source output w)) = trace w @ Exists source # [] @ []"
    by (simp add: read_folder_missing emit_def call_def)
  with False show ?thesis by (intro exI [of _ "[]"]) simp
next
  case True
  show ?thesis
  proof (cases "discovered w source = []")
    case True
    with \<open>exists (fs w) source\<close>
    have "trace (snd (read_folder sched source output w)) =
      trace w @ Exists source # (Rglob source # map IsFile (rglob (fs w) source)) @ []"
      by (simp add: read_folder_walk emit_def walked_def)
    with \<open>exists (fs w) source\<close> show ?thesis by (intro exI [of _ "[]"]) simp
  next
    case False
    let ?g = "gather sched (map (\<lambda>p. copy_file p output) (discovered w source)) (walked w source)"
    from False True have r: "read_folder sched source output w = ?g"
      by (simp add: read_folder_walk)
    from gather_copy_files [of "output" "walked w source" sched "discovered w source"]
    have "observed output (walked w source) (snd ?g)" by blast
    then obtain cs where "trace (snd ?g) = trace (walked w source) @ cs"
      "list_all (task_call output) cs"
      unfolding observed_def by blast
    with True show ?thesis unfolding r by (intro exI [of _ cs]) (simp add: walked_def)
  qed
qed

lemma split_after_prefix:
  assumes "xs @ ys = us @ c # vs" and "c \<notin> set xs"
  shows "\<exists>ws. ys = ws @ c # vs"
  using assms
proof (induction xs arbitrary: us)
  case Nil
  then show ?case by auto
next
  case (Cons x xs)
  from Cons.prems obtain us' where "us = x # us'" by (cases us) auto
  with Cons.prems have "xs @ ys = us' @ c # vs" "c \<notin> set xs" by auto
  then show ?case by (rule Cons.IH)
qed

lemma no_task_call_before_walk_ends:
  "\<not> (\<exists>cs1 c cs2 c'. trace (snd (read_folder sched source output w)) = trace w @ cs1 @ c # cs2
        \<and> task_call output c \<and> c' \<in> set cs2 \<and> walker_call c')"
proof
  assume "\<exists>cs1 c cs2 c'. trace (snd (read_folder sched source output w)) = trace w @ cs1 @ c # cs2
        \<and> task_call output c \<and> c' \<in> set cs2 \<and> walker_call c'"
  then obtain cs1 c cs2 c' where
    t: "trace (snd (read_folder sched source output w)) = trace w @ cs1 @ c # cs2"
    and c: "task_call output c" and c': "c' \<in> set cs2" "walker_call c'"
    by blast
  let ?W = "Exists source
    # (if exists (fs w) source then Rglob source # map IsFile (rglob (fs w) source) else [])"
  from read_folder_trace [of sched source "output" w] obtain cs where
    cs: "trace (snd (read_folder sched source output w)) =
       trace w @ Exists source
         # (if exists (fs w) source then Rglob source # map IsFile (rglob (fs w) source) else [])
         @ cs"
      "list_all (task_call output) cs"
    by blast
  have w: "walker_call x" if "x \<in> set ?W" for x
    using that by (auto split: if_splits)
  from t cs(1) have eq: "?W @ cs = cs1 @ c # cs2" by simp
  have "c \<notin> set ?W"
  proof
    assume "c \<in> set ?W"
    then have "walker_call c" by (rule w)
    with task_not_walker [OF c] show False by simp
  qed
  with eq have "\<exists>ws. cs = ws @ c # cs2" by (rule split_after_prefix)
  then obtain ws where "cs = ws @ c # cs2" by blast
  with cs(2) c'(1) have "task_call output c'" by (simp add: list_all_iff)
  from task_not_walker [OF this] c'(2) show False by simp
qed

text \<open>
  \<^bold>\<open>C5\<close> (as the program does it). The walk is consumed path by path, but copy work
  does not overlap it: \<^verbatim>\<open>read_folder\<close> only creates the copy coroutines during the walk
  and starts them afterwards, with \<^verbatim>\<open>asyncio.gather\<close>. Under every schedule the calls
  of a run are the calls of the walk (\<^verbatim>\<open>exists\<close>, \<^verbatim>\<open>rglob\<close>, one
  \<^verbatim>\<open>is_file\<close> for each path found) followed by calls of copy tasks only, so no call of
  a copy task is made before the last call of the walk; and when \<^verbatim>\<open>read_folder\<close>
  returns, every copy task has ended, with its outcome logged.
\<close>

theorem copy_work_follows_walk:
  "(\<exists>cs. trace (snd (read_folder sched source output w)) =
       trace w @ Exists source
         # (if exists (fs w) source then Rglob source # map IsFile (rglob (fs w) source) else [])
         @ cs
     \<and> list_all (task_call output) cs)
   \<and> \<not> (\<exists>cs1 c cs2 c'. trace (snd (read_folder sched source output w)) = trace w @ cs1 @ c # cs2
        \<and> task_call output c \<and> c' \<in> set cs2 \<and> walker_call c')
   \<and> (fst (read_folder sched source output w) = Some (Inr ()) \<longrightarrow>
        (\<forall>path\<in>set (discovered w source).
           attempted path output (snd (read_folder sched source output w))))"
proof (intro conjI)
  show "\<exists>cs. trace (snd (read_folder sched source output w)) =
       trace w @ Exists source
         # (if exists (fs w) source then Rglob source # map IsFile (rglob (fs w) source) else [])
         @ cs
     \<and> list_all (task_call output) cs"
    by (rule read_folder_trace)
  show "\<not> (\<exists>cs1 c cs2 c'. trace (snd (read_folder sched source output w)) = trace w @ cs1 @ c # cs2
        \<and> task_call output c \<and> c' \<in> set cs2 \<and> walker_call c')"
    by (rule no_task_call_before_walk_ends)
  show "fst (read_folder sched source output w) = Some (Inr ()) \<longrightarrow>
        (\<forall>path\<in>set (discovered w source).
           attempted path output (snd (read_folder sched source output w)))"
    using read_folder_attempts [of sched source "output" w] by blast
qed

theorem copy_work_follows_walk_witness:
  "trace (snd (read_folder [0, 1, 0, 1, 0, 1] [''src''] [''out''] two_files)) =
     [Exists [''src''], Rglob [''src''], IsFile [''src'', ''a.txt''], IsFile [''src'', ''sub''],
      IsFile [''src'', ''sub'', ''b.txt''],
      OsMkdir [''out'', ''txt''], OsMkdir [''out'', ''txt''], OsMkdir [''out''], OsMkdir [''out''],
      OsMkdir [''out'', ''txt''], IsDir [''out'']]
   \<and> fst (read_folder (concat (replicate 11 [0, 1])) [''src''] [''out''] two_files) = Some (Inr ())
   \<and> attempted [''src'', ''a.txt''] [''out'']
        (snd (read_folder (concat (replicate 11 [0, 1])) [''src''] [''out''] two_files))
   \<and> attempted [''src'', ''sub'', ''b.txt''] [''out'']
        (snd (read_folder (concat (replicate 11 [0, 1])) [''src''] [''out''] two_files))"
proof -
  let ?r = "read_folder (concat (replicate 11 [0, 1])) [''src''] [''out''] two_files"
  have a: "trace (snd (read_folder [0, 1, 0, 1, 0, 1] [''src''] [''out''] two_files)) =
     [Exists [''src''], Rglob [''src''], IsFile [''src'', ''a.txt''], IsFile [''src'', ''sub''],
      IsFile [''src'', ''sub'', ''b.txt''],
      OsMkdir [''out'', ''txt''], OsMkdir [''out'', ''txt''], OsMkdir [''out''], OsMkdir [''out''],
      OsMkdir [''out'', ''txt''], IsDir [''out'']]"
    by code_simp
  have b: "fst ?r = Some (Inr ())" by code_simp
  have d: "discovered two_files [''src''] = [[''src'', ''a.txt''], [''src'', ''sub'', ''b.txt'']]"
    by code_simp
  from copy_work_follows_walk [of "concat (replicate 11 [0, 1])" "[''src'']" "[''out'']" two_files] b
  have "\<forall>path\<in>set (discovered two_files [''src'']). attempted path [''out''] (snd ?r)"
    by blast
  then have "attempted [''src'', ''a.txt''] [''out''] (snd ?r)"
    "attempted [''src'', ''sub'', ''b.txt''] [''out''] (snd ?r)"
    unfolding d by simp_all
  with a b show ?thesis by (intro conjI)
qed

theorem copy_before_walk_ends_counterexample:
  "\<not> (\<exists>sched cs1 c cs2 c'.
        trace (snd (read_folder sched [''src''] [''out''] two_files)) = cs1 @ c # cs2
        \<and> task_call [''out''] c \<and> c' \<in> set cs2 \<and> walker_call c')
   \<and> discovered two_files [''src''] = [[''src'', ''a.txt''], [''src'', ''sub'', ''b.txt'']]
   \<and> trace (snd (read_folder [0, 1, 0, 1, 0, 1] [''src''] [''out''] two_files)) =
     [Exists [''src''], Rglob [''src''], IsFile [''src'', ''a.txt''], IsFile [''src'', ''sub''],
      IsFile [''src'', ''sub'', ''b.txt''],
      OsMkdir [''out'', ''txt''], OsMkdir [''out'', ''txt''], OsMkdir [''out''], OsMkdir [''out''],
      OsMkdir [''out'', ''txt''], IsDir [''out'']]"
proof -
  have "trace two_files = []" by (simp add: two_files_def)
  with no_task_call_before_walk_ends [of _ "[''src'']" "[''out'']" two_files]
  have "\<not> (\<exists>sched cs1 c cs2 c'.
        trace (snd (read_folder sched [''src''] [''out''] two_files)) = cs1 @ c # cs2
        \<and> task_call [''out''] c \<and> c' \<in> set cs2 \<and> walker_call c')"
    by simp
  moreover have "discovered two_files [''src''] = [[''src'', ''a.txt''], [''src'', ''sub'', ''b.txt'']]"
    by code_simp
  moreover have "trace (snd (read_folder [0, 1, 0, 1, 0, 1] [''src''] [''out''] two_files)) =
     [Exists [''src''], Rglob [''src''], IsFile [''src'', ''a.txt''], IsFile [''src'', ''sub''],
      IsFile [''src'', ''sub'', ''b.txt''],
      OsMkdir [''out'', ''txt''], OsMkdir [''out'', ''txt''], OsMkdir [''out''], OsMkdir [''out''],
      OsMkdir [''out'', ''txt''], IsDir [''out'']]"
    by code_simp
  ultimately show ?thesis by (intro conjI)
qed


lemma mkdir_frame_refl: "mkdir_frame p w w"
  by (simp add: mkdir_frame_def)










text \<open>
  \<^bold>\<open>C7.\<close> When the source is a directory and the walk finds no regular file below
  it, \<^verbatim>\<open>read_folder\<close> returns normally under every schedule: it logs the warning and
  nothing else, leaves the file system as it is, and makes the calls of the walk only, so
  no copy task is started.
\<close>

theorem no_files_is_a_warning:
  assumes "is_dir (fs w) source" and "discovered w source = []"
  shows "read_folder sched source output w =
      (Some (Inr ()), emit WARNING (NoFilesFound source) (walked w source))
    \<and> fs (snd (read_folder sched source output w)) = fs w
    \<and> logs (snd (read_folder sched source output w)) = logs w @ [(WARNING, NoFilesFound source)]
    \<and> trace (snd (read_folder sched source output w)) =
        trace w @ Exists source # Rglob source # map IsFile (rglob (fs w) source)"
proof -
  from assms(1) have "exists (fs w) source" by (rule is_dir_exists)
  with assms(2) show ?thesis
    by (simp add: read_folder_walk emit_def walked_def)
qed

theorem no_files_is_a_warning_witness:
  "read_folder [0, 1] [''src''] [''out''] only_dirs =
     (Some (Inr ()), \<lparr>fs = [([''src''], Dir), ([''src'', ''sub''], Dir), ([''notes.txt''], File ''N'')],
        logs = [(WARNING, NoFilesFound [''src''])],
        trace = [Exists [''src''], Rglob [''src''], IsFile [''src'', ''sub'']]\<rparr>)"
proof -
  have a: "is_dir (fs only_dirs) [''src'']" by code_simp
  have b: "discovered only_dirs [''src''] = []" by code_simp
  have c: "emit WARNING (NoFilesFound [''src'']) (walked only_dirs [''src'']) =
     \<lparr>fs = [([''src''], Dir), ([''src'', ''sub''], Dir), ([''notes.txt''], File ''N'')],
        logs = [(WARNING, NoFilesFound [''src''])],
        trace = [Exists [''src''], Rglob [''src''], IsFile [''src'', ''sub'']]\<rparr>"
    by code_simp
  from no_files_is_a_warning [OF a b, of "[0, 1]" "[''out'']"]
  show ?thesis unfolding c by blast
qed

text \<open>
  \<^bold>\<open>C10.\<close> The test of the source is \<^verbatim>\<open>exists\<close>, not \<^verbatim>\<open>is_dir\<close>: when the
  source path is a regular file, \<^verbatim>\<open>read_folder\<close> does not log the missing-source error;
  it goes on to the walk (\<^verbatim>\<open>rglob\<close> is called and yields nothing) and ends with the
  no-files warning.
\<close>

theorem source_file_passes_validation:
  assumes "is_file (fs w) source"
  shows "read_folder sched source output w =
      (Some (Inr ()), emit WARNING (NoFilesFound source)
         (w\<lparr>trace := trace w @ [Exists source, Rglob source]\<rparr>))
    \<and> (ERROR, SourceMissing source) \<notin> set (logs (snd (read_folder sched source output w)))
         - set (logs w)
    \<and> Rglob source \<in> set (trace (snd (read_folder sched source output w)))"
proof -
  from assms have e: "exists (fs w) source" and d: "\<not> is_dir (fs w) source"
    by (auto simp: is_file_def exists_def is_dir_def split: option.splits node.splits)
  from d have r: "rglob (fs w) source = []" by (simp add: rglob_def)
  then have "discovered w source = []" by (simp add: discovered_def)
  with e r have "read_folder sched source output w =
      (Some (Inr ()), emit WARNING (NoFilesFound source)
         (w\<lparr>trace := trace w @ [Exists source, Rglob source]\<rparr>))"
    by (simp add: read_folder_walk walked_def)
  then show ?thesis by (simp add: emit_def)
qed

theorem source_file_passes_validation_witness:
  "read_folder [] [''notes.txt''] [''out''] only_dirs =
     (Some (Inr ()), \<lparr>fs = [([''src''], Dir), ([''src'', ''sub''], Dir), ([''notes.txt''], File ''N'')],
        logs = [(WARNING, NoFilesFound [''notes.txt''])],
        trace = [Exists [''notes.txt''], Rglob [''notes.txt'']]\<rparr>)"
proof -
  have a: "is_file (fs only_dirs) [''notes.txt'']" by code_simp
  have c: "emit WARNING (NoFilesFound [''notes.txt''])
       (only_dirs\<lparr>trace := trace only_dirs @ [Exists [''notes.txt''], Rglob [''notes.txt'']]\<rparr>) =
     \<lparr>fs = [([''src''], Dir), ([''src'', ''sub''], Dir), ([''notes.txt''], File ''N'')],
        logs = [(WARNING, NoFilesFound [''notes.txt''])],
        trace = [Exists [''notes.txt''], Rglob [''notes.txt'']]\<rparr>"
    by code_simp
  from source_file_passes_validation [OF a, of "[]" "[''out'']"]
  show ?thesis unfolding c by blast
qed

lemma classify_component:
  assumes "CHR ''/'' \<notin> set (name path)"
  shows "classify path \<noteq> [] \<and> classify path \<noteq> ''.'' \<and> CHR ''/'' \<notin> set (classify path)"
proof -
  from suffix_cases [of path] show ?thesis
  proof
    assume "suffix path = []"
    then show ?thesis by (simp add: classify_no_suffix)
  next
    assume "\<exists>stem e. name path = stem @ CHR ''.'' # e \<and> stem \<noteq> [] \<and> e \<noteq> []
      \<and> CHR ''.'' \<notin> set e \<and> suffix path = CHR ''.'' # e"
    then obtain stem e where e: "name path = stem @ CHR ''.'' # e" "e \<noteq> []"
      "CHR ''.'' \<notin> set e" "suffix path = CHR ''.'' # e"
      by blast
    from e(1) assms have "CHR ''/'' \<notin> set e" by simp
    with skeleton_eq [OF classify_of_suffix(2) [OF e(4) e(3)]] e(2,3)
    have n: "classify path \<noteq> []" "CHR ''.'' \<notin> set (classify path)"
      "CHR ''/'' \<notin> set (classify path)"
      by simp_all
    from n(2) have "classify path \<noteq> ''.''" by auto
    with n show ?thesis by simp
  qed
qed

lemma target_path_layout:
  assumes "name path \<noteq> []" and "name path \<noteq> ''.''" and "CHR ''/'' \<notin> set (name path)"
  shows "target_folder path out = out @ [classify path]"
    and "target_path path out = out @ [classify path, name path]"
proof -
  from classify_component [OF assms(3)]
  show f: "target_folder path out = out @ [classify path]"
    by (simp add: target_folder_def joinpath_component)
  from assms show "target_path path out = out @ [classify path, name path]"
    by (simp add: target_path_def f joinpath_component)
qed

lemma shutil_copy_result_content:
  "shutil_copy_result f src dst = Inr c \<Longrightarrow> lookup f src = Some (File c)"
  by (auto simp: shutil_copy_result_def Let_def split: if_splits option.splits node.splits)

lemma read_folder_logs:
  "\<exists>ls. logs (snd (read_folder sched source output w)) = logs w @ ls
     \<and> (\<forall>l src dst. (l, Copied src dst) \<in> set ls \<longrightarrow> l = INFO \<and> dst = target_path src output)"
proof (cases "exists (fs w) source")
  case False
  then show ?thesis
    by (intro exI [of _ "[(ERROR, SourceMissing source)]"])
      (simp add: read_folder_missing emit_def call_def)
next
  case True
  show ?thesis
  proof (cases "discovered w source = []")
    case True
    with \<open>exists (fs w) source\<close> show ?thesis
      by (intro exI [of _ "[(WARNING, NoFilesFound source)]"])
        (simp add: read_folder_walk emit_def walked_def)
  next
    case False
    let ?g = "gather sched (map (\<lambda>p. copy_file p output) (discovered w source)) (walked w source)"
    from False True have r: "read_folder sched source output w = ?g"
      by (simp add: read_folder_walk)
    from gather_copy_files [of "output" "walked w source" sched "discovered w source"]
    have "observed output (walked w source) (snd ?g)" by blast
    then obtain ls where ls: "logs (snd ?g) = logs (walked w source) @ ls"
      "list_all (task_log output) ls"
      unfolding observed_def by blast
    have "l = INFO \<and> dst = target_path src output" if "(l, Copied src dst) \<in> set ls" for l src dst
    proof -
      from ls(2) that have "task_log output (l, Copied src dst)"
        unfolding list_all_iff by blast
      then show ?thesis by simp
    qed
    with ls(1) show ?thesis unfolding r by (intro exI [of _ ls]) (simp add: walked_def)
  qed
qed

lemma shutil_copy_result_target:
  "shutil_copy_result f src dst = Inr c \<Longrightarrow> \<not> is_dir f (copy_target f src dst)"
  by (auto simp: shutil_copy_result_def Let_def split: if_splits option.splits node.splits)

text \<open>
  \<^bold>\<open>C8\<close> (as the program does it). The path \<^verbatim>\<open>copy_file\<close> hands to the copy is
  \<^verbatim>\<open>target_folder / path.name\<close>. For a path whose last component is a file name this
  is \<^verbatim>\<open>output_folder/<bucket>/<name>\<close>: its name is the name of the source and its
  parent is the directory created for the bucket. In a run, every copy that
  \<^verbatim>\<open>read_folder\<close> calls, and every copy it logs, has the source's path of that form as
  its destination. A copy that succeeds logs that destination, and it writes the content of
  the source there when no directory stands at that path; when a directory stands there,
  \<^verbatim>\<open>shutil.copy\<close> writes the content inside it, under the name of the source, and the
  directory stays. The last part is stated for plain paths.
\<close>

theorem destination_keeps_file_name:
  "copy_file path output =
     try_except
       (seq (mkdir True True (target_folder path output))
          (seq (aioshutil_copy path (joinpath (target_folder path output) (name path)))
             (logging INFO (Copied path (joinpath (target_folder path output) (name path))))))
       (\<lambda>e. logging ERROR (ErrorCopying path e))
   \<and> target_path path output = joinpath (target_folder path output) (name path)
   \<and> (name path \<noteq> [] \<and> name path \<noteq> ''.'' \<and> CHR ''/'' \<notin> set (name path) \<longrightarrow>
        target_path path output = output @ [classify path, name path]
        \<and> name (target_path path output) = name path
        \<and> parent (target_path path output) = target_folder path output)
   \<and> (\<exists>cs. trace (snd (read_folder sched source output w)) =
         trace w @ Exists source
           # (if exists (fs w) source then Rglob source # map IsFile (rglob (fs w) source) else [])
           @ cs
       \<and> (\<forall>src dst. ShutilCopy src dst \<in> set cs \<longrightarrow> dst = target_path src output))
   \<and> (\<exists>ls. logs (snd (read_folder sched source output w)) = logs w @ ls
       \<and> (\<forall>l src dst. (l, Copied src dst) \<in> set ls \<longrightarrow> l = INFO \<and> dst = target_path src output))
   \<and> (\<forall>v1 c. plain path \<and> plain output
         \<and> await (mkdir True True (target_folder path output)) v = (Inr (), v1)
         \<and> shutil_copy_result (fs v1) path (target_path path output) = Inr c \<longrightarrow>
        lookup (fs v1) path = Some (File c)
        \<and> logs (snd (await (copy_file path output) v))
            = logs v1 @ [(INFO, Copied path (target_path path output))]
        \<and> (if is_dir (fs v1) (target_path path output)
           then lookup (fs (snd (await (copy_file path output) v)))
                  (joinpath (target_path path output) (name path)) = Some (File c)
             \<and> is_dir (fs (snd (await (copy_file path output) v))) (target_path path output)
           else lookup (fs (snd (await (copy_file path output) v))) (target_path path output)
                  = Some (File c)))"
proof (intro conjI)
  show "copy_file path output =
     try_except
       (seq (mkdir True True (target_folder path output))
          (seq (aioshutil_copy path (joinpath (target_folder path output) (name path)))
             (logging INFO (Copied path (joinpath (target_folder path output) (name path))))))
       (\<lambda>e. logging ERROR (ErrorCopying path e))"
    by (simp add: copy_file_eq target_path_def)
  show "target_path path output = joinpath (target_folder path output) (name path)"
    by (simp add: target_path_def)
  show "name path \<noteq> [] \<and> name path \<noteq> ''.'' \<and> CHR ''/'' \<notin> set (name path) \<longrightarrow>
        target_path path output = output @ [classify path, name path]
        \<and> name (target_path path output) = name path
        \<and> parent (target_path path output) = target_folder path output"
    by (simp add: target_path_layout name_def parent_def butlast_append)
  show "\<exists>cs. trace (snd (read_folder sched source output w)) =
         trace w @ Exists source
           # (if exists (fs w) source then Rglob source # map IsFile (rglob (fs w) source) else [])
           @ cs
       \<and> (\<forall>src dst. ShutilCopy src dst \<in> set cs \<longrightarrow> dst = target_path src output)"
  proof -
    from read_folder_trace [of sched source "output" w] obtain cs where
      cs: "trace (snd (read_folder sched source output w)) =
         trace w @ Exists source
           # (if exists (fs w) source then Rglob source # map IsFile (rglob (fs w) source) else [])
           @ cs"
        "list_all (task_call output) cs"
      by blast
    have "dst = target_path src output" if "ShutilCopy src dst \<in> set cs" for src dst
    proof -
      from cs(2) that have "task_call output (ShutilCopy src dst)"
        unfolding list_all_iff by blast
      then show ?thesis by simp
    qed
    with cs(1) show ?thesis by blast
  qed
  show "\<exists>ls. logs (snd (read_folder sched source output w)) = logs w @ ls
       \<and> (\<forall>l src dst. (l, Copied src dst) \<in> set ls \<longrightarrow> l = INFO \<and> dst = target_path src output)"
    by (rule read_folder_logs)
  show "\<forall>v1 c. plain path \<and> plain output
         \<and> await (mkdir True True (target_folder path output)) v = (Inr (), v1)
         \<and> shutil_copy_result (fs v1) path (target_path path output) = Inr c \<longrightarrow>
        lookup (fs v1) path = Some (File c)
        \<and> logs (snd (await (copy_file path output) v))
            = logs v1 @ [(INFO, Copied path (target_path path output))]
        \<and> (if is_dir (fs v1) (target_path path output)
           then lookup (fs (snd (await (copy_file path output) v)))
                  (joinpath (target_path path output) (name path)) = Some (File c)
             \<and> is_dir (fs (snd (await (copy_file path output) v))) (target_path path output)
           else lookup (fs (snd (await (copy_file path output) v))) (target_path path output)
                  = Some (File c))"
  proof (intro allI impI, elim conjE)
    fix v1 :: world and c :: string
    let ?tp = "target_path path output"
    let ?d = "copy_target (fs v1) path ?tp"
    let ?end = "snd (await (copy_file path output) v)"
    assume m: "await (mkdir True True (target_folder path output)) v = (Inr (), v1)"
      and r: "shutil_copy_result (fs v1) path ?tp = Inr c"
    from r have nd: "\<not> is_dir (fs v1) ?d" by (rule shutil_copy_result_target)
    then have ne: "?d \<noteq> []" by auto
    have f: "fs ?end = (?d, File c) # fs v1"
      by (simp add: await_copy_file_copied [OF m r] emit_def call_def)
    have l: "logs ?end = logs v1 @ [(INFO, Copied path ?tp)]"
      by (simp add: await_copy_file_copied [OF m r] emit_def call_def)
    from ne have at: "lookup (fs ?end) ?d = Some (File c)" by (simp add: f lookup_def)
    have src: "lookup (fs v1) path = Some (File c)"
      using r by (rule shutil_copy_result_content)
    have "lookup (fs ?end) (joinpath ?tp (name path)) = Some (File c) \<and> is_dir (fs ?end) ?tp"
      if d: "is_dir (fs v1) ?tp"
    proof -
      from d have e: "?d = joinpath ?tp (name path)" by (simp add: copy_target_def)
      from d nd have "?tp \<noteq> ?d" by auto
      with d have "is_dir (fs ?end) ?tp"
        by (auto simp: f is_dir_def lookup_def split: if_splits)
      with at e show ?thesis by simp
    qed
    moreover have "lookup (fs ?end) ?tp = Some (File c)" if "\<not> is_dir (fs v1) ?tp"
      using that at by (simp add: copy_target_def)
    ultimately show "lookup (fs v1) path = Some (File c)
        \<and> logs ?end = logs v1 @ [(INFO, Copied path ?tp)]
        \<and> (if is_dir (fs v1) ?tp
           then lookup (fs ?end) (joinpath ?tp (name path)) = Some (File c) \<and> is_dir (fs ?end) ?tp
           else lookup (fs ?end) ?tp = Some (File c))"
      using src l by simp
  qed
qed

theorem destination_keeps_file_name_witness:
  "target_path [''src'', ''x'', ''Report.PDF''] [''out''] = [''out'', ''pdf'', ''Report.PDF'']
   \<and> name (target_path [''src'', ''x'', ''Report.PDF''] [''out'']) = ''Report.PDF''
   \<and> parent (target_path [''src'', ''x'', ''Report.PDF''] [''out'']) = [''out'', ''pdf'']
   \<and> lookup (fs (snd (await (copy_file [''src'', ''x'', ''Report.PDF''] [''out'']) report_world)))
        [''out'', ''pdf'', ''Report.PDF''] = Some (File ''%PDF'')
   \<and> logs (snd (await (copy_file [''src'', ''x'', ''Report.PDF''] [''out'']) report_world)) =
        [(INFO, Copied [''src'', ''x'', ''Report.PDF''] [''out'', ''pdf'', ''Report.PDF''])]
   \<and> lookup (fs (snd (await (copy_file [''src'', ''a.txt''] [''out'']) blocked_world)))
        [''out'', ''txt'', ''a.txt'', ''a.txt''] = Some (File ''A'')
   \<and> is_dir (fs (snd (await (copy_file [''src'', ''a.txt''] [''out'']) blocked_world)))
        [''out'', ''txt'', ''a.txt'']
   \<and> read_folder [0, 0, 0, 0, 0] [''src''] [''out''] report_world =
       (Some (Inr ()),
        \<lparr>fs = [([''out'', ''pdf'', ''Report.PDF''], File ''%PDF''), ([''out'', ''pdf''], Dir),
           ([''out''], Dir), ([''src''], Dir), ([''src'', ''x''], Dir),
           ([''src'', ''x'', ''Report.PDF''], File ''%PDF'')],
         logs = [(INFO, Copied [''src'', ''x'', ''Report.PDF''] [''out'', ''pdf'', ''Report.PDF''])],
         trace = [Exists [''src''], Rglob [''src''], IsFile [''src'', ''x''],
           IsFile [''src'', ''x'', ''Report.PDF''], OsMkdir [''out'', ''pdf''], OsMkdir [''out''],
           OsMkdir [''out'', ''pdf''],
           ShutilCopy [''src'', ''x'', ''Report.PDF''] [''out'', ''pdf'', ''Report.PDF'']]\<rparr>)"
proof -
  have run: "read_folder [0, 0, 0, 0, 0] [''src''] [''out''] report_world =
       (Some (Inr ()),
        \<lparr>fs = [([''out'', ''pdf'', ''Report.PDF''], File ''%PDF''), ([''out'', ''pdf''], Dir),
           ([''out''], Dir), ([''src''], Dir), ([''src'', ''x''], Dir),
           ([''src'', ''x'', ''Report.PDF''], File ''%PDF'')],
         logs = [(INFO, Copied [''src'', ''x'', ''Report.PDF''] [''out'', ''pdf'', ''Report.PDF''])],
         trace = [Exists [''src''], Rglob [''src''], IsFile [''src'', ''x''],
           IsFile [''src'', ''x'', ''Report.PDF''], OsMkdir [''out'', ''pdf''], OsMkdir [''out''],
           OsMkdir [''out'', ''pdf''],
           ShutilCopy [''src'', ''x'', ''Report.PDF''] [''out'', ''pdf'', ''Report.PDF'']]\<rparr>)"
    by code_simp
  let ?p = "[''src'', ''x'', ''Report.PDF'']"
  let ?v1 = "\<lparr>fs = [([''out'', ''pdf''], Dir), ([''out''], Dir), ([''src''], Dir),
     ([''src'', ''x''], Dir), ([''src'', ''x'', ''Report.PDF''], File ''%PDF'')], logs = [],
     trace = [OsMkdir [''out'', ''pdf''], OsMkdir [''out''], OsMkdir [''out'', ''pdf'']]\<rparr>"
  have n: "name ?p \<noteq> [] \<and> name ?p \<noteq> ''.'' \<and> CHR ''/'' \<notin> set (name ?p)"
    by (simp add: name_def)
  have c: "classify ?p = ''pdf''" by code_simp
  have nm: "name ?p = ''Report.PDF''" by (simp add: name_def)
  have tf: "target_folder ?p [''out''] = [''out'', ''pdf'']" by code_simp
  have pl: "plain ?p \<and> plain [''out'']" by code_simp
  have m: "await (mkdir True True (target_folder ?p [''out''])) report_world = (Inr (), ?v1)"
    by code_simp
  have r: "shutil_copy_result (fs ?v1) ?p (target_path ?p [''out'']) = Inr ''%PDF''"
    by code_simp
  have d: "\<not> is_dir (fs ?v1) (target_path ?p [''out''])" by code_simp
  note t = destination_keeps_file_name [of ?p "[''out'']" "[]" "[''src'']" report_world report_world]
  from t n have a: "target_path ?p [''out''] = [''out''] @ [classify ?p, name ?p]"
    and b: "name (target_path ?p [''out'']) = name ?p"
    and e: "parent (target_path ?p [''out'']) = target_folder ?p [''out'']"
    by blast+
  from t pl m r have
    "logs (snd (await (copy_file ?p [''out'']) report_world))
       = logs ?v1 @ [(INFO, Copied ?p (target_path ?p [''out'']))]
     \<and> (if is_dir (fs ?v1) (target_path ?p [''out''])
        then lookup (fs (snd (await (copy_file ?p [''out'']) report_world)))
               (joinpath (target_path ?p [''out'']) (name ?p)) = Some (File ''%PDF'')
          \<and> is_dir (fs (snd (await (copy_file ?p [''out'']) report_world))) (target_path ?p [''out''])
        else lookup (fs (snd (await (copy_file ?p [''out'']) report_world))) (target_path ?p [''out''])
               = Some (File ''%PDF''))"
    by blast
  with d have g:
    "lookup (fs (snd (await (copy_file ?p [''out'']) report_world))) (target_path ?p [''out''])
       = Some (File ''%PDF'')"
    and h: "logs (snd (await (copy_file ?p [''out'']) report_world))
       = logs ?v1 @ [(INFO, Copied ?p (target_path ?p [''out'']))]"
    by simp_all
  let ?q = "[''src'', ''a.txt'']"
  let ?u1 = "\<lparr>fs = [([''src''], Dir), ([''src'', ''a.txt''], File ''A''), ([''out''], Dir),
     ([''out'', ''txt''], Dir), ([''out'', ''txt'', ''a.txt''], Dir)], logs = [],
     trace = [OsMkdir [''out'', ''txt''], IsDir [''out'', ''txt'']]\<rparr>"
  have pl': "plain ?q \<and> plain [''out'']" by code_simp
  have tq: "target_path ?q [''out''] = [''out'', ''txt'', ''a.txt'']" by code_simp
  have jq: "joinpath [''out'', ''txt'', ''a.txt''] (name ?q) = [''out'', ''txt'', ''a.txt'', ''a.txt'']"
    by code_simp
  have m': "await (mkdir True True (target_folder ?q [''out''])) blocked_world = (Inr (), ?u1)"
    by code_simp
  have r': "shutil_copy_result (fs ?u1) ?q (target_path ?q [''out'']) = Inr ''A''"
    by code_simp
  have d': "is_dir (fs ?u1) (target_path ?q [''out''])" by code_simp
  note t' = destination_keeps_file_name [of ?q "[''out'']" "[]" "[''src'']" blocked_world blocked_world]
  from t' pl' m' r' have
    "if is_dir (fs ?u1) (target_path ?q [''out''])
     then lookup (fs (snd (await (copy_file ?q [''out'']) blocked_world)))
            (joinpath (target_path ?q [''out'']) (name ?q)) = Some (File ''A'')
       \<and> is_dir (fs (snd (await (copy_file ?q [''out'']) blocked_world))) (target_path ?q [''out''])
     else lookup (fs (snd (await (copy_file ?q [''out'']) blocked_world))) (target_path ?q [''out''])
            = Some (File ''A'')"
    by blast
  with d' have i:
    "lookup (fs (snd (await (copy_file ?q [''out'']) blocked_world)))
       (joinpath (target_path ?q [''out'']) (name ?q)) = Some (File ''A'')"
    and j: "is_dir (fs (snd (await (copy_file ?q [''out'']) blocked_world))) (target_path ?q [''out''])"
    by simp_all
  from a b e g h i j run show ?thesis unfolding c nm tf tq jq by simp
qed

theorem destination_directory_counterexample:
  "main [0, 0, 0, 0] ''src'' ''out'' blocked_world =
     (Some (Inr ()),
      \<lparr>fs = [([''out'', ''txt'', ''a.txt'', ''a.txt''], File ''A''), ([''src''], Dir),
         ([''src'', ''a.txt''], File ''A''), ([''out''], Dir), ([''out'', ''txt''], Dir),
         ([''out'', ''txt'', ''a.txt''], Dir)],
       logs = [(INFO, Copied [''src'', ''a.txt''] [''out'', ''txt'', ''a.txt''])],
       trace = [OsMkdir [''out''], IsDir [''out''], Exists [''src''], Rglob [''src''],
         IsFile [''src'', ''a.txt''], OsMkdir [''out'', ''txt''], IsDir [''out'', ''txt''],
         ShutilCopy [''src'', ''a.txt''] [''out'', ''txt'', ''a.txt'']]\<rparr>)
   \<and> target_path [''src'', ''a.txt''] [''out''] = [''out'', ''txt'', ''a.txt'']
   \<and> lookup (fs (snd (main [0, 0, 0, 0] ''src'' ''out'' blocked_world)))
        [''out'', ''txt'', ''a.txt''] = Some Dir
   \<and> lookup (fs (snd (main [0, 0, 0, 0] ''src'' ''out'' blocked_world)))
        [''out'', ''txt'', ''a.txt'', ''a.txt''] = Some (File ''A'')"
  by code_simp

end
